theory Spec2Isabelle
  imports Main "HOL-Library.Word"
begin

unbundle bit_operations_syntax

section \<open>Memory\<close>

text \<open>
  The allocator casts block and page pointers to \<open>unsigned int\<close> and subtracts them
  (\<open>ObjectAllocator<T>::Free\<close>), so it is written for a target whose pointers and
  \<open>unsigned\<close> values are 32 bits wide.  Addresses and every \<open>unsigned\<close> quantity
  are therefore \<open>32 word\<close>: \<open>+\<close>, \<open>-\<close> and \<open>*\<close> wrap around as they do in the
  program.  Memory is a byte store, so that the poison bytes, the free-list link that
  \<open>Push\<close> writes into the first word of a block, and the debug header in front of a
  block can overlap exactly as they do in a page.
\<close>

type_synonym addr = "32 word"
type_synonym byte = "8 word"
type_synonym mem = "addr \<Rightarrow> byte"

text \<open>\<open>memset(p, v, n)\<close>: the \<open>n\<close> bytes from \<open>p\<close> on become \<open>v\<close>.\<close>

definition memset :: "mem \<Rightarrow> addr \<Rightarrow> byte \<Rightarrow> 32 word \<Rightarrow> mem" where
  "memset m p v n = (\<lambda>a. if a - p < n then v else m a)"

text \<open>A pointer or an \<open>unsigned\<close> held in memory: four bytes, least significant first.\<close>

definition read32 :: "mem \<Rightarrow> addr \<Rightarrow> 32 word" where
  "read32 m a =
     ucast (m a) OR push_bit 8 (ucast (m (a + 1))) OR
     push_bit 16 (ucast (m (a + 2))) OR push_bit 24 (ucast (m (a + 3)))"

definition write32 :: "mem \<Rightarrow> addr \<Rightarrow> 32 word \<Rightarrow> mem" where
  "write32 m a v =
     m(a := ucast v, a + 1 := ucast (drop_bit 8 v),
       a + 2 := ucast (drop_bit 16 v), a + 3 := ucast (drop_bit 24 v))"

section \<open>ObjectAllocator: constants, settings and statistics\<close>

definition ALLOCATED :: byte where "ALLOCATED = 0xAA"
definition FREED :: byte where "FREED = 0xBB"
definition PAD :: byte where "PAD = 0xDD"
definition ALIGN :: byte where "ALIGN = 0xEE"
definition UNALLOCATED :: byte where "UNALLOCATED = 0xFF"

text \<open>
  \<open>sizeof(GenericObject*)\<close> and \<open>sizeof(DebugHeader)\<close> on the 32-bit target: the
  header is \<open>{bool allocated; char const * filename; unsigned line;}\<close>, with
  \<open>allocated\<close> at offset 0, \<open>filename\<close> at offset 4 and \<open>line\<close> at offset 8.
\<close>

definition ptr_size :: "32 word" where "ptr_size = 4"
definition headerSize :: "32 word" where "headerSize = 12"

record Stats =
  freeBlocks :: "32 word"
  blocksInUse :: "32 word"
  pagesInUse :: "32 word"
  mostBlocksInUse :: "32 word"
  mostPagesInUse :: "32 word"
  allocations :: "32 word"
  deallocations :: "32 word"

text \<open>
  The immutable part of an \<open>ObjectAllocator<T>\<close>: its \<open>ObjectAllocatorSettings\<close>,
  \<open>sizeof(T)\<close>, and whether the build defines \<open>MEMORYMANAGER_ENABLE_EXCEPTIONS\<close>.
  The build always defines \<open>MEMORYMANAGER_DEBUG\<close> here.  \<open>T\<close> is taken to be
  trivially destructible (as \<open>Handle\<close> and the integer types are), so the destructor
  call in \<open>Free\<close> does nothing.
\<close>

record config =
  blocksPerPage :: "32 word"
  padBytes :: "32 word"
  alignment :: "32 word"
  sizeofT :: "32 word"
  exceptions :: bool

definition default_settings :: "32 word \<Rightarrow> bool \<Rightarrow> config" where
  "default_settings sz ex =
     \<lparr>blocksPerPage = 1024, padBytes = 2, alignment = 4, sizeofT = sz, exceptions = ex\<rparr>"

text \<open>The quantities the constructor computes once.\<close>

definition blockSize :: "config \<Rightarrow> 32 word" where
  "blockSize c = (if sizeofT c < ptr_size then ptr_size else sizeofT c)"

definition leftAlign :: "config \<Rightarrow> 32 word" where
  "leftAlign c =
     (if alignment c > 1
      then (alignment c - (ptr_size + headerSize + padBytes c)) mod alignment c
      else 0)"

definition interAlign :: "config \<Rightarrow> 32 word" where
  "interAlign c =
     (if alignment c > 1
      then (alignment c - (blockSize c + headerSize + 2 * padBytes c)) mod alignment c
      else 0)"

definition leftChunkSize :: "config \<Rightarrow> 32 word" where
  "leftChunkSize c = ptr_size + leftAlign c + headerSize + 2 * padBytes c + blockSize c"

definition interChunkSize :: "config \<Rightarrow> 32 word" where
  "interChunkSize c = blockSize c + 2 * padBytes c + interAlign c + headerSize"

definition CalculatePageSize :: "config \<Rightarrow> 32 word" where
  "CalculatePageSize c =
     ptr_size + leftAlign c +
     blocksPerPage c * (blockSize c + 2 * padBytes c + headerSize + interAlign c) -
     interAlign c"

definition pageSize :: "config \<Rightarrow> 32 word" where
  "pageSize c = CalculatePageSize c"

text \<open>
  What the allocator sends to its log stream, piece by piece as the \<open><<\<close> operators
  send it: a string literal, an \<open>unsigned\<close>, a \<open>char const *\<close> (named by its
  address), or \<open>std::endl\<close>.
\<close>

datatype tok = Str string | Num "32 word" | CStr addr | Endl

text \<open>
  The mutable part of an allocator.  \<open>logStream = None\<close> is the null stream pointer.
\<close>

record pool =
  stats :: Stats
  pageList :: addr
  freeList :: addr
  heap :: mem
  logStream :: "tok list option"

definition no_stats :: Stats where
  "no_stats = \<lparr>freeBlocks = 0, blocksInUse = 0, pagesInUse = 0, mostBlocksInUse = 0,
     mostPagesInUse = 0, allocations = 0, deallocations = 0\<rparr>"

text \<open>The constructor: empty lists, zero statistics; \<open>m\<close> is the memory it finds.\<close>

definition new_pool :: "mem \<Rightarrow> tok list option \<Rightarrow> pool" where
  "new_pool m lg =
     \<lparr>stats = no_stats, pageList = 0, freeList = 0, heap = m, logStream = lg\<rparr>"

definition log_line :: "tok list \<Rightarrow> pool \<Rightarrow> pool" where
  "log_line ts st = st\<lparr>logStream := map_option (\<lambda>l. l @ ts) (logStream st)\<rparr>"

section \<open>The intrusive stacks\<close>

text \<open>\<open>Push(stack, obj)\<close>: \<open>obj->next = stack; stack = obj\<close>.  Returns memory and stack.\<close>

definition Push :: "mem \<Rightarrow> addr \<Rightarrow> addr \<Rightarrow> mem \<times> addr" where
  "Push m stack obj = (write32 m obj stack, obj)"

text \<open>\<open>Pop(stack)\<close>: returns the popped pointer and the new stack.\<close>

definition Pop :: "mem \<Rightarrow> addr \<Rightarrow> addr \<times> addr" where
  "Pop m stack = (if stack = 0 then (0, stack) else (stack, read32 m stack))"

section \<open>The debug header\<close>

definition GetDebugHeader :: "config \<Rightarrow> addr \<Rightarrow> addr" where
  "GetDebugHeader c p = p - padBytes c - headerSize"

definition hdr_allocated :: "mem \<Rightarrow> addr \<Rightarrow> bool" where
  "hdr_allocated m h = (m h \<noteq> 0)"

definition hdr_filename :: "mem \<Rightarrow> addr \<Rightarrow> addr" where
  "hdr_filename m h = read32 m (h + 4)"

definition hdr_line :: "mem \<Rightarrow> addr \<Rightarrow> 32 word" where
  "hdr_line m h = read32 m (h + 8)"

section \<open>CreatePage\<close>

text \<open>
  One round of the loop that populates the free list "except for last block"; the state
  is the memory, the free list and the cursor \<open>p\<close>.
\<close>

definition cp_step :: "config \<Rightarrow> mem \<times> addr \<times> addr \<Rightarrow> mem \<times> addr \<times> addr" where
  "cp_step c s =
     (case s of (m, fl, p) \<Rightarrow>
        let m1 = memset m p UNALLOCATED (blockSize c);
            (m2, fl2) = Push m1 fl p;
            p2 = p + blockSize c;
            m3 = memset m2 p2 PAD (padBytes c);
            p3 = p2 + padBytes c;
            m4 = memset m3 p3 ALIGN (interAlign c);
            p4 = p3 + interAlign c;
            m5 = memset m4 p4 0 headerSize;
            p5 = p4 + headerSize;
            m6 = memset m5 p5 PAD (padBytes c);
            p6 = p5 + padBytes c
        in (m6, fl2, p6))"

fun cp_loop :: "config \<Rightarrow> nat \<Rightarrow> mem \<times> addr \<times> addr \<Rightarrow> mem \<times> addr \<times> addr" where
  "cp_loop c 0 s = s"
| "cp_loop c (Suc k) s = cp_loop c k (cp_step c s)"

text \<open>
  \<open>CreatePage\<close>; \<open>pg\<close> is the address \<open>new char[pageSize]\<close> returns.  The loop bound
  \<open>blocksPerPage - 1\<close> is computed in \<open>unsigned\<close>.
\<close>

definition CreatePage :: "config \<Rightarrow> addr \<Rightarrow> pool \<Rightarrow> pool" where
  "CreatePage c pg st =
     (let (m0, pl) = Push (heap st) (pageList st) pg;
          p0 = pg + ptr_size;
          m1 = memset m0 p0 ALIGN (leftAlign c);
          p1 = p0 + leftAlign c;
          m2 = memset m1 p1 0 headerSize;
          p2 = p1 + headerSize;
          m3 = memset m2 p2 PAD (padBytes c);
          p3 = p2 + padBytes c;
          (m4, fl, p4) = cp_loop c (unat (blocksPerPage c - 1)) (m3, freeList st, p3);
          m5 = memset m4 p4 UNALLOCATED (blockSize c);
          (m6, fl') = Push m5 fl p4;
          p5 = p4 + blockSize c;
          m7 = memset m6 p5 PAD (padBytes c);
          s = stats st;
          piu = pagesInUse s + 1;
          s' = s\<lparr>pagesInUse := piu,
                 freeBlocks := freeBlocks s + blocksPerPage c,
                 mostPagesInUse := (if piu > mostPagesInUse s then piu else mostPagesInUse s)\<rparr>
      in st\<lparr>stats := s', pageList := pl, freeList := fl', heap := m7\<rparr>)"

section \<open>Allocate\<close>

text \<open>
  \<open>Allocate(file, line)\<close> returns the block's address and the new state; \<open>pg\<close> is the
  page \<open>new\<close> would hand out, used only when the free list is empty.
\<close>

definition Allocate :: "config \<Rightarrow> addr \<Rightarrow> pool \<Rightarrow> addr \<Rightarrow> 32 word \<Rightarrow> addr \<times> pool" where
  "Allocate c pg st0 file line =
     (let st = (if freeList st0 = 0 then CreatePage c pg st0 else st0);
          s = stats st;
          biu = blocksInUse s + 1;
          s' = s\<lparr>allocations := allocations s + 1,
                 blocksInUse := biu,
                 mostBlocksInUse := (if biu > mostBlocksInUse s then biu else mostBlocksInUse s),
                 freeBlocks := freeBlocks s - 1\<rparr>;
          (p, fl) = Pop (heap st) (freeList st);
          m1 = memset (heap st) p ALLOCATED (blockSize c);
          dbg = p - headerSize - padBytes c;
          m2 = m1(dbg := 1);
          m3 = write32 m2 (dbg + 8) line;
          m4 = write32 m3 (dbg + 4) file
      in (p, st\<lparr>stats := s', freeList := fl, heap := m4\<rparr>))"

section \<open>Free\<close>

text \<open>
  How a call ends: it returns a status byte, or (with exceptions enabled) it throws a
  \<open>MemoryManagerException\<close> with a message, a file name and a line.
\<close>

datatype outcome = Returned byte | Raised string addr "32 word"

text \<open>
  The walk over the page list, looking for the page with \<open>d < pageSize\<close>.  The links
  are read from memory, so the walk need not end: \<open>None\<close> is a walk that runs forever,
  \<open>Some None\<close> one that reaches the null pointer, \<open>Some (Some pg)\<close> one that stops at
  page \<open>pg\<close>.
\<close>

partial_function (option) find_page :: "mem \<Rightarrow> 32 word \<Rightarrow> addr \<Rightarrow> addr \<Rightarrow> addr option option" where
  "find_page m psz del pages =
     (if pages = 0 then Some None
      else if del - pages < psz then Some (Some pages)
      else find_page m psz del (read32 m pages))"

text \<open>The pad loop: both canaries of every index must hold \<open>PAD\<close>.\<close>

definition pads_intact :: "config \<Rightarrow> mem \<Rightarrow> addr \<Rightarrow> bool" where
  "pads_intact c m del =
     list_all (\<lambda>i. m (del - 1 - of_nat i) = PAD \<and> m (del + blockSize c + of_nat i) = PAD)
       [0 ..< unat (padBytes c)]"

text \<open>A failed check: the line goes to the log, then the throw or the error code.\<close>

definition reject :: "config \<Rightarrow> pool \<Rightarrow> tok list \<Rightarrow> byte \<Rightarrow> string \<Rightarrow> addr \<Rightarrow> 32 word \<Rightarrow> pool \<times> outcome" where
  "reject c st ts code msg file line =
     (log_line ts st, if exceptions c then Raised msg file line else Returned code)"

text \<open>The part of \<open>Free\<close> after the loop: poison, clear the header, push, count.\<close>

definition release :: "config \<Rightarrow> pool \<Rightarrow> addr \<Rightarrow> pool \<times> outcome" where
  "release c st del =
     (let m1 = memset (heap st) del FREED (blockSize c);
          m2 = memset m1 (del - headerSize - padBytes c) 0 headerSize;
          (m3, fl) = Push m2 (freeList st) del;
          s = stats st;
          s' = s\<lparr>deallocations := deallocations s + 1,
                 blocksInUse := blocksInUse s - 1,
                 freeBlocks := freeBlocks s + 1\<rparr>
      in (st\<lparr>stats := s', freeList := fl, heap := m3\<rparr>, Returned 0))"

text \<open>The checks made on the page the walk stopped at.\<close>

definition check_block :: "config \<Rightarrow> pool \<Rightarrow> addr \<Rightarrow> addr \<Rightarrow> addr \<Rightarrow> 32 word \<Rightarrow> pool \<times> outcome" where
  "check_block c st pages del file line =
     (let header = GetDebugHeader c del;
          d = del - pages;
          left_offset = leftChunkSize c - padBytes c - blockSize c
      in if (d - left_offset) mod interChunkSize c \<noteq> 0
         then reject c st
                [Str ''Invalid alignment on free from #'', Num line, Str '' in file '',
                 CStr file, Endl]
                ALIGN ''Invalid alignment on free.'' file line
         else if \<not> hdr_allocated (heap st) header
         then reject c st
                [Str ''Attempt to free already freed memory from #'', Num line,
                 Str '' in file '', CStr file, Endl]
                FREED ''Attempt to free already freed memory.'' file line
         else if \<not> pads_intact c (heap st) del
         then reject c st
                [Str ''Pad bytes invalidated for object allocated at #'',
                 Num (hdr_line (heap st) header), Str '' in file '',
                 CStr (hdr_filename (heap st) header), Endl]
                PAD ''Pad bytes invalidated for object.'' file line
         else release c st del)"

text \<open>
  \<open>Free(mem, filename, line)\<close>.  When the walk ends without a page, the code falls
  through to the release.
\<close>

definition Free :: "config \<Rightarrow> pool \<Rightarrow> addr \<Rightarrow> addr \<Rightarrow> 32 word \<Rightarrow> (pool \<times> outcome) option" where
  "Free c st del file line =
     (case find_page (heap st) (pageSize c) del (pageList st) of
        None \<Rightarrow> None
      | Some None \<Rightarrow> Some (release c st del)
      | Some (Some pages) \<Rightarrow> Some (check_block c st pages del file line))"

section \<open>DumpMemoryInUse\<close>

text \<open>The inner loop over the blocks of one page; \<open>out\<close> is what was written so far.\<close>

fun dump_blocks :: "config \<Rightarrow> mem \<Rightarrow> nat \<Rightarrow> addr \<Rightarrow> tok list \<Rightarrow> tok list" where
  "dump_blocks c m 0 p out = out"
| "dump_blocks c m (Suc k) p out =
     (let dbg = GetDebugHeader c p;
          out' = (if hdr_allocated m dbg
                  then out @ [Num (blockSize c), Str ''b allocated at line #'',
                              Num (hdr_line m dbg), Str '' in file '',
                              CStr (hdr_filename m dbg)]
                  else out)
      in dump_blocks c m k (p + interChunkSize c) out')"

partial_function (option) dump_pages :: "config \<Rightarrow> mem \<Rightarrow> addr \<Rightarrow> tok list \<Rightarrow> tok list option" where
  "dump_pages c m pages out =
     (if pages = 0 then Some out
      else dump_pages c m (read32 m pages)
             (dump_blocks c m (unat (blocksPerPage c))
                (pages + (ptr_size + leftAlign c + headerSize + padBytes c)) out))"

definition DumpMemoryInUse :: "config \<Rightarrow> pool \<Rightarrow> tok list \<Rightarrow> tok list option" where
  "DumpMemoryInUse c st out = dump_pages c (heap st) (pageList st) out"

section \<open>Reachable allocator states\<close>

text \<open>
  The states an allocator can be in: the one its constructor leaves, and those reached
  by calls of \<open>Allocate\<close> and of \<open>Free\<close> that return or throw (a throw leaves the
  state the call had built up to then).  Neither the page \<open>new\<close> hands out nor the
  address given to \<open>Free\<close> is restricted.
\<close>

inductive reach :: "config \<Rightarrow> pool \<Rightarrow> bool" for c :: config where
  reach_new: "reach c (new_pool m lg)"
| reach_Allocate: "reach c st \<Longrightarrow> reach c (snd (Allocate c pg st fname line))"
| reach_Free: "reach c st \<Longrightarrow> Free c st del fname line = Some (st', oc) \<Longrightarrow> reach c st'"

definition stats_inv :: "config \<Rightarrow> Stats \<Rightarrow> bool" where
  "stats_inv c s \<longleftrightarrow>
     freeBlocks s + blocksInUse s = pagesInUse s * blocksPerPage c \<and>
     allocations s - deallocations s = blocksInUse s"

section \<open>Linked lists in memory\<close>

text \<open>
  \<open>chain m p xs\<close>: following the \<open>next\<close> words from \<open>p\<close> in memory \<open>m\<close> visits exactly
  the objects \<open>xs\<close> and then reaches the null pointer.
\<close>

fun chain :: "mem \<Rightarrow> addr \<Rightarrow> addr list \<Rightarrow> bool" where
  "chain m p [] = (p = 0)"
| "chain m p (x # xs) = (p = x \<and> x \<noteq> 0 \<and> chain m (read32 m x) xs)"

section \<open>Examples used to exercise the theorems\<close>

text \<open>
  A pool of 8-byte objects with two blocks per page, pads of two bytes and alignment 4,
  in a build without exceptions; the memory is all zero before the first page is made
  at address \<open>0x1000\<close>.
\<close>

definition cfg2 :: config where
  "cfg2 = \<lparr>blocksPerPage = 2, padBytes = 2, alignment = 4, sizeofT = 8, exceptions = False\<rparr>"

definition pool0 :: pool where
  "pool0 = new_pool (\<lambda>a. 0) (Some [])"

definition pool1 :: pool where
  "pool1 = snd (Allocate cfg2 0x1000 pool0 7 9)"

section \<open>The statistics\<close>

lemma stats_inv_CreatePage:
  "stats_inv c (stats st) \<Longrightarrow> stats_inv c (stats (CreatePage c pg st))"
  by (simp add: CreatePage_def stats_inv_def Let_def split: prod.splits)
     (simp add: algebra_simps)

lemma stats_inv_Allocate:
  "stats_inv c (stats st) \<Longrightarrow> stats_inv c (stats (snd (Allocate c pg st fname line)))"
  using stats_inv_CreatePage [of c st pg]
  by (auto simp add: Allocate_def stats_inv_def Let_def split: prod.splits)

lemma stats_inv_release:
  "stats_inv c (stats st) \<Longrightarrow> stats_inv c (stats (fst (release c st del)))"
  by (simp add: release_def stats_inv_def Let_def split: prod.splits)

lemma stats_reject: "stats (fst (reject c st ts code msg fname line)) = stats st"
  by (simp add: reject_def log_line_def)

lemma stats_inv_check_block:
  "stats_inv c (stats st) \<Longrightarrow>
   stats_inv c (stats (fst (check_block c st pages del fname line)))"
  by (simp add: check_block_def Let_def stats_reject stats_inv_release)

lemma stats_inv_Free:
  "stats_inv c (stats st) \<Longrightarrow> Free c st del fname line = Some (st', oc) \<Longrightarrow>
   stats_inv c (stats st')"
  by (auto simp add: Free_def split: option.splits)
     (metis fst_conv stats_inv_release, metis fst_conv stats_inv_check_block)

lemma reach_stats_inv: "reach c st \<Longrightarrow> stats_inv c (stats st)"
proof (induction rule: reach.induct)
  case (reach_new m lg)
  then show ?case by (simp add: new_pool_def no_stats_def stats_inv_def)
next
  case (reach_Allocate st pg fname line)
  then show ?case by (simp add: stats_inv_Allocate)
next
  case (reach_Free st del fname line st' oc)
  then show ?case by (simp add: stats_inv_Free)
qed

text \<open>
  Claim C3.  In every state reachable from a fresh pool by any sequence of \<open>Allocate\<close>
  and \<open>Free\<close> calls, \<open>freeBlocks + blocksInUse = pagesInUse * blocksPerPage\<close> and
  \<open>allocations - deallocations = blocksInUse\<close>.  The counters are the program's
  \<open>unsigned\<close> fields and the equations are read in their arithmetic.
\<close>

theorem C3_stats_invariant:
  "reach c st \<Longrightarrow>
     freeBlocks (stats st) + blocksInUse (stats st) = pagesInUse (stats st) * blocksPerPage c \<and>
     allocations (stats st) - deallocations (stats st) = blocksInUse (stats st)"
  using reach_stats_inv [of c st] by (simp add: stats_inv_def)

theorem C3_stats_invariant_witness:
  "reach cfg2 pool1 \<and>
   freeBlocks (stats pool1) + blocksInUse (stats pool1) =
     pagesInUse (stats pool1) * blocksPerPage cfg2 \<and>
   allocations (stats pool1) - deallocations (stats pool1) = blocksInUse (stats pool1)"
proof -
  have r: "reach cfg2 pool1"
    unfolding pool1_def pool0_def by (rule reach_Allocate [OF reach_new])
  from C3_stats_invariant [OF r] r show ?thesis by simp
qed

section \<open>Facts about memory and linked lists\<close>

lemma bytes4:
  "ucast (ucast v :: byte) OR push_bit 8 (ucast (ucast (drop_bit 8 v) :: byte)) OR
   push_bit 16 (ucast (ucast (drop_bit 16 v) :: byte)) OR
   push_bit 24 (ucast (ucast (drop_bit 24 v) :: byte)) = (v :: 32 word)"
  (is "?l = v")
proof (rule bit_word_eqI)
  fix n :: nat
  assume "n < LENGTH(32)"
  then have n: "n < 32" by simp
  consider "n < 8" | "8 \<le> n" "n < 16" | "16 \<le> n" "n < 24" | "24 \<le> n"
    by linarith
  then show "bit ?l n = bit v n"
    using n by cases (auto simp add: bit_simps)
qed

lemma read32_write32 [simp]: "read32 (write32 m a v) a = v"
  by (simp add: read32_def write32_def bytes4)

lemma write32_other: "\<not> b - a < 4 \<Longrightarrow> write32 m a v b = m b"
proof -
  assume h: "\<not> b - a < 4"
  have "b \<noteq> a" "b \<noteq> a + 1" "b \<noteq> a + 2" "b \<noteq> a + 3"
    using h by auto
  then show ?thesis by (simp add: write32_def)
qed

lemma read32_cong: "(\<And>b. b - a < 4 \<Longrightarrow> m' b = m b) \<Longrightarrow> read32 m' a = read32 m a"
proof -
  assume h: "\<And>b. b - a < 4 \<Longrightarrow> m' b = m b"
  have "m' a = m a" "m' (a + 1) = m (a + 1)" "m' (a + 2) = m (a + 2)" "m' (a + 3) = m (a + 3)"
    by (rule h, simp)+
  then show ?thesis by (simp add: read32_def)
qed

lemma memset_apply: "memset m p v n a = (if a - p < n then v else m a)"
  by (simp add: memset_def)

lemma chain_cong:
  "chain m p xs \<Longrightarrow> (\<And>x b. x \<in> set xs \<Longrightarrow> b - x < 4 \<Longrightarrow> m' b = m b) \<Longrightarrow> chain m' p xs"
proof (induction xs arbitrary: p)
  case Nil
  then show ?case by simp
next
  case (Cons x xs)
  have r: "read32 m' x = read32 m x"
    by (rule read32_cong) (rule Cons.prems(2), simp_all)
  have "chain m' (read32 m x) xs"
    using Cons.prems by (intro Cons.IH) auto
  with r Cons.prems(1) show ?case by simp
qed

lemma chain_unique: "chain m p xs \<Longrightarrow> chain m p ys \<Longrightarrow> xs = ys"
proof (induction xs arbitrary: p ys)
  case Nil
  then show ?case by (cases ys) auto
next
  case (Cons x xs)
  then show ?case by (cases ys) auto
qed

lemma find_page_chain:
  "chain m p ps \<Longrightarrow> find_page m psz del p = Some (List.find (\<lambda>q. del - q < psz) ps)"
proof (induction ps arbitrary: p)
  case Nil
  then show ?case by (simp add: find_page.simps)
next
  case (Cons x xs)
  then show ?case by (subst find_page.simps) simp
qed

text \<open>
  An address range given by its offset \<open>k\<close> from a base \<open>pg\<close>: membership is a
  comparison of offsets, as long as the range ends within the address space.
\<close>

lemma in_range_off:
  assumes "k + unat n \<le> 2 ^ 32"
  shows "(a - (pg + word_of_nat k) < (n :: 32 word)) \<longleftrightarrow> (k \<le> unat (a - pg) \<and> unat (a - pg) < k + unat n)"
proof -
  have k: "k < 2 ^ 32 \<or> unat n = 0" using assms by (cases "unat n = 0") auto
  show ?thesis
  proof (cases "unat n = 0")
    case True
    then have "n = 0" by (simp add: unat_eq_0)
    then show ?thesis by simp
  next
    case False
    then have k': "k < 2 ^ 32" using assms by simp
    have e: "a - (pg + word_of_nat k) = (a - pg) - word_of_nat k" by simp
    have uk: "unat (word_of_nat k :: 32 word) = k" using k' by (simp add: unat_of_nat)
    have "unat ((a - pg) - word_of_nat k) = (if k \<le> unat (a - pg) then unat (a - pg) - k else unat (a - pg) + 2 ^ 32 - k)"
      by (simp add: unat_sub_if' uk)
    then show ?thesis using assms k' unfolding e word_less_nat_alt
      by (auto split: if_splits)
  qed
qed

section \<open>Free: the order of the checks\<close>

lemma find_page_unique:
  assumes "chain m p ps" "pg \<in> set ps" "del - pg < psz"
    and "\<forall>q\<in>set ps. q \<noteq> pg \<longrightarrow> \<not> del - q < psz"
  shows "find_page m psz del p = Some (Some pg)"
proof -
  have "List.find (\<lambda>q. del - q < psz) ps = Some pg"
    using assms(2-4)
  proof (induction ps)
    case Nil
    then show ?case by simp
  next
    case (Cons x xs)
    then show ?case by (cases "x = pg") auto
  qed
  with find_page_chain [OF assms(1)] show ?thesis by simp
qed




section \<open>The example pool, evaluated\<close>

lemmas cfg_defs = blockSize_def leftAlign_def interAlign_def leftChunkSize_def interChunkSize_def
  CalculatePageSize_def pageSize_def ptr_size_def headerSize_def
lemmas op_defs = Allocate_def CreatePage_def cp_step_def Push_def Pop_def new_pool_def no_stats_def Let_def

lemma cfg2_vals: "blockSize cfg2 = 8" "leftAlign cfg2 = 2" "interAlign cfg2 = 0" "interChunkSize cfg2 = 24"
  "pageSize cfg2 = 54" "leftChunkSize cfg2 = 30" "padBytes cfg2 = 2" "blocksPerPage cfg2 = 2" "exceptions cfg2 = False"
  by (simp_all add: cfg_defs cfg2_def)

lemma write32_apply: "write32 m a v b = (if b = a + 3 then ucast (drop_bit 24 v) else if b = a + 2 then ucast (drop_bit 16 v)
   else if b = a + 1 then ucast (drop_bit 8 v) else if b = a then ucast v else m b)"
  by (simp add: write32_def)

definition heap1 :: mem where
  "heap1 = write32 (write32 ((memset
                   (memset
                     (write32
                       (memset
                         (memset
                           (memset
                             (memset
                               (memset
                                 (write32
                                   (memset
                                     (memset
                                       (memset
                                         (memset (write32 (\<lambda>a. 0) 0x1000 0)
                                           0x1004 ALIGN 2)
                                         0x1006 0 12)
                                       0x1012 PAD 2)
                                     0x1014 UNALLOCATED 8)
                                   0x1014 0)
                                 0x101C PAD 2)
                               0x101E ALIGN 0)
                             0x101E 0 12)
                           0x102A PAD 2)
                         0x102C UNALLOCATED 8)
                       0x102C 0x1014)
                     0x1034 PAD 2)
                   0x102C ALLOCATED 8)
                  (0x101E := 1)) 0x1026 9) 0x1022 7"

lemma a1: "Allocate cfg2 0x1000 pool0 7 9 = (0x102C, 
   \<lparr>stats = \<lparr>freeBlocks = 1, blocksInUse = 1, pagesInUse = 1, mostBlocksInUse = 1,
     mostPagesInUse = 1, allocations = 1, deallocations = 0\<rparr>, pageList = 0x1000, freeList = 0x1014, heap = heap1, logStream = Some []\<rparr>)"
  by (simp add: op_defs pool0_def cfg2_vals ptr_size_def headerSize_def heap1_def read32_def memset_apply write32_apply)

lemma pool1_eq: "pool1 = \<lparr>stats = \<lparr>freeBlocks = 1, blocksInUse = 1, pagesInUse = 1, mostBlocksInUse = 1,
     mostPagesInUse = 1, allocations = 1, deallocations = 0\<rparr>, pageList = 0x1000, freeList = 0x1014, heap = heap1, logStream = Some []\<rparr>"
  by (simp add: pool1_def a1)





section \<open>DumpMemoryInUse: what is written\<close>

text \<open>The example pool after a second allocation: both blocks of its page are in use.\<close>

definition pool2 :: pool where
  "pool2 = snd (Allocate cfg2 0x2000 pool1 7 10)"

definition heap2 :: mem where
  "heap2 = write32 (write32 ((memset heap1 0x1014 ALLOCATED 8)(0x1006 := 1)) 0x100E 10) 0x100A 7"

lemma h1_link: "heap1 0x1014 = 0" "heap1 0x1015 = 0" "heap1 0x1016 = 0" "heap1 0x1017 = 0"
  by (simp_all add: heap1_def memset_apply write32_apply)

lemma pool2_eq: "pool2 = \<lparr>stats = \<lparr>freeBlocks = 0, blocksInUse = 2, pagesInUse = 1, mostBlocksInUse = 2,
     mostPagesInUse = 1, allocations = 2, deallocations = 0\<rparr>, pageList = 0x1000, freeList = 0, heap = heap2, logStream = Some []\<rparr>"
  by (simp add: pool2_def pool1_eq Allocate_def Pop_def Let_def cfg2_vals headerSize_def heap2_def read32_def h1_link)

lemma h2_vals:
  "heap2 0x1000 = 0" "heap2 0x1001 = 0" "heap2 0x1002 = 0" "heap2 0x1003 = 0"
  "heap2 0x1006 = 1" "heap2 0x100A = 7" "heap2 0x100B = 0" "heap2 0x100C = 0" "heap2 0x100D = 0"
  "heap2 0x100E = 10" "heap2 0x100F = 0" "heap2 0x1010 = 0" "heap2 0x1011 = 0"
  "heap2 0x101E = 1" "heap2 0x1022 = 7" "heap2 0x1023 = 0" "heap2 0x1024 = 0" "heap2 0x1025 = 0"
  "heap2 0x1026 = 9" "heap2 0x1027 = 0" "heap2 0x1028 = 0" "heap2 0x1029 = 0"
  by (simp_all add: heap2_def heap1_def memset_apply write32_apply)

lemma dump_blocks_2:
  "dump_blocks c m 2 p out = dump_blocks c m 0 (p + interChunkSize c + interChunkSize c)
     (let dbg = GetDebugHeader c (p + interChunkSize c);
          out1 = (let dbg0 = GetDebugHeader c p in
                  if hdr_allocated m dbg0
                  then out @ [Num (blockSize c), Str ''b allocated at line #'',
                              Num (hdr_line m dbg0), Str '' in file '',
                              CStr (hdr_filename m dbg0)]
                  else out)
      in if hdr_allocated m dbg
         then out1 @ [Num (blockSize c), Str ''b allocated at line #'',
                     Num (hdr_line m dbg), Str '' in file '',
                     CStr (hdr_filename m dbg)]
         else out1)"
  by (simp add: numeral_2_eq_2 Let_def)

text \<open>
  Claim C10 says that every block in use is reported on a line of its own, ended by a
  newline.  With both blocks of the example page in use, \<open>DumpMemoryInUse\<close> writes
  the two reports one after the other, for the allocated slots only, and no \<open>std::endl\<close>
  after either of them (\<open>Free\<close> ends each of its own log lines with \<open>std::endl\<close>).
\<close>

theorem C10_DumpMemoryInUse_omits_newline: "DumpMemoryInUse cfg2 pool2 [] =
   Some [Num 8, Str ''b allocated at line #'', Num 10, Str '' in file '', CStr 7,
         Num 8, Str ''b allocated at line #'', Num 9, Str '' in file '', CStr 7]"
  by (simp add: DumpMemoryInUse_def pool2_eq dump_pages.simps cfg2_vals ptr_size_def headerSize_def dump_blocks_2
      GetDebugHeader_def hdr_allocated_def hdr_line_def hdr_filename_def read32_def h2_vals)

text \<open>No call of \<open>DumpMemoryInUse\<close> ever writes \<open>std::endl\<close>.\<close>

lemma dump_blocks_no_Endl: "Endl \<notin> set out \<Longrightarrow> Endl \<notin> set (dump_blocks c m k p out)"
  by (induction k arbitrary: p out) (simp_all add: Let_def)

lemma dump_pages_no_Endl:
  assumes "dump_pages c m pages out = Some out'"
  shows "Endl \<notin> set out \<longrightarrow> Endl \<notin> set out'"
proof (rule dump_pages.raw_induct
    [where P = "\<lambda>c m pages out out'. Endl \<notin> set out \<longrightarrow> Endl \<notin> set out'", OF _ assms])
  fix dp :: "config \<Rightarrow> mem \<Rightarrow> addr \<Rightarrow> tok list \<Rightarrow> tok list option"
  fix c m pages out out'
  assume IH: "\<And>c m pages out out'. dp c m pages out = Some out' \<Longrightarrow>
                Endl \<notin> set out \<longrightarrow> Endl \<notin> set out'"
  assume step: "(if pages = 0 then Some out
      else dp c m (read32 m pages)
             (dump_blocks c m (unat (blocksPerPage c))
                (pages + (ptr_size + leftAlign c + headerSize + padBytes c)) out)) = Some out'"
  show "Endl \<notin> set out \<longrightarrow> Endl \<notin> set out'"
  proof (cases "pages = 0")
    case True
    with step show ?thesis by simp
  next
    case False
    with step IH show ?thesis
      using dump_blocks_no_Endl by auto
  qed
qed

section \<open>The layout of a page, in natural numbers\<close>

text \<open>
  The sizes as natural numbers: \<open>chunk\<close> is the distance between two blocks,
  \<open>first\<close> the offset of the first block in its page, \<open>psize\<close> the size of a page.
\<close>

definition chunk :: "config \<Rightarrow> nat" where
  "chunk c = unat (blockSize c) + 2 * unat (padBytes c) + unat (interAlign c) + 12"

definition first :: "config \<Rightarrow> nat" where
  "first c = 4 + unat (leftAlign c) + 12 + unat (padBytes c)"

definition psize :: "config \<Rightarrow> nat" where
  "psize c = 4 + unat (leftAlign c) + unat (blocksPerPage c) * chunk c - unat (interAlign c)"

text \<open>
  A configuration whose sizes do not overflow \<open>unsigned\<close>, with at least one block in
  a page.
\<close>

definition cfg_ok :: "config \<Rightarrow> bool" where
  "cfg_ok c \<longleftrightarrow>
     0 < unat (blocksPerPage c) \<and>
     4 + unat (leftAlign c) + unat (blocksPerPage c) * chunk c < 2 ^ 32"

lemma blockSize_ge: "4 \<le> unat (blockSize c)"
  by (simp add: blockSize_def ptr_size_def word_less_nat_alt)

lemma chunk_le: "cfg_ok c \<Longrightarrow> chunk c \<le> unat (blocksPerPage c) * chunk c"
  by (simp add: cfg_ok_def)

lemma chunk_bound: "cfg_ok c \<Longrightarrow> 4 + unat (leftAlign c) + chunk c < 2 ^ 32"
  using chunk_le [of c] unfolding cfg_ok_def by linarith

lemma unat_interChunkSize: "cfg_ok c \<Longrightarrow> unat (interChunkSize c) = chunk c"
  using chunk_bound [of c]
  by (simp add: interChunkSize_def chunk_def headerSize_def unat_word_ariths)

lemma unat_left_offset:
  "cfg_ok c \<Longrightarrow> unat (leftChunkSize c - padBytes c - blockSize c) = first c"
proof -
  assume ok: "cfg_ok c"
  have e: "leftChunkSize c - padBytes c - blockSize c = 4 + leftAlign c + 12 + padBytes c"
    by (simp add: leftChunkSize_def ptr_size_def headerSize_def)
  show ?thesis
    unfolding e using chunk_bound [OF ok]
    by (simp add: first_def chunk_def unat_word_ariths)
qed

lemma unat_pageSize: "cfg_ok c \<Longrightarrow> unat (pageSize c) = psize c"
proof -
  assume ok: "cfg_ok c"
  let ?n = "unat (blocksPerPage c)"
  have b: "4 + unat (leftAlign c) + ?n * chunk c < 2 ^ 32" "0 < ?n"
    using ok by (simp_all add: cfg_ok_def)
  have ia: "unat (interAlign c) \<le> chunk c" by (simp add: chunk_def)
  have e: "blockSize c + 2 * padBytes c + headerSize + interAlign c = interChunkSize c"
    by (simp add: interChunkSize_def)
  have "unat (blocksPerPage c) * unat (interChunkSize c) < 2 ^ LENGTH(32)"
    using b by (simp add: unat_interChunkSize [OF ok])
  then have m: "unat (blocksPerPage c * interChunkSize c) = ?n * chunk c"
    by (simp only: unat_mult_lem [THEN iffD1] unat_interChunkSize [OF ok])
  have "unat (4 :: 32 word) + unat (leftAlign c) < 2 ^ LENGTH(32)"
    using b by simp
  then have a: "unat (4 + leftAlign c) = 4 + unat (leftAlign c)"
    by (simp only: unat_add_lem [THEN iffD1]) simp
  have "unat (4 + leftAlign c) + unat (blocksPerPage c * interChunkSize c) < 2 ^ LENGTH(32)"
    using b by (simp add: a m)
  then have s: "unat (4 + leftAlign c + blocksPerPage c * interChunkSize c) = 4 + unat (leftAlign c) + ?n * chunk c"
    by (simp only: unat_add_lem [THEN iffD1] a m)
  have le: "unat (interAlign c) \<le> 4 + unat (leftAlign c) + ?n * chunk c"
    using ia chunk_le [OF ok] by linarith
  have "unat (4 + leftAlign c + blocksPerPage c * interChunkSize c - interAlign c)
        = 4 + unat (leftAlign c) + ?n * chunk c - unat (interAlign c)"
    using le by (simp add: unat_sub_if' s)
  then show ?thesis
    by (simp add: pageSize_def CalculatePageSize_def ptr_size_def e psize_def)
qed

lemma psize_eq: "cfg_ok c \<Longrightarrow>
  psize c = first c + (unat (blocksPerPage c) - 1) * chunk c + unat (blockSize c) + unat (padBytes c)"
proof -
  assume ok: "cfg_ok c"
  obtain k where k: "unat (blocksPerPage c) = Suc k"
    using ok by (auto simp add: cfg_ok_def gr0_conv_Suc)
  show ?thesis
    by (simp add: psize_def first_def k) (simp add: chunk_def)
qed

section \<open>Writes seen through offsets\<close>

text \<open>Byte \<open>k\<close> of a 32-bit value, least significant first.\<close>

definition byte_of :: "32 word \<Rightarrow> nat \<Rightarrow> byte" where
  "byte_of v k = ucast (drop_bit (8 * k) v)"

lemma word_lt4_cases: "(x :: 32 word) < 4 \<Longrightarrow> x = 0 \<or> x = 1 \<or> x = 2 \<or> x = 3"
  by unat_arith

lemma write32_range: "write32 m p v a = (if a - p < 4 then byte_of v (unat (a - p)) else m a)"
proof (cases "a - p < 4")
  case True
  then have "a - p = 0 \<or> a - p = 1 \<or> a - p = 2 \<or> a - p = 3" by (rule word_lt4_cases)
  then have "a = p \<or> a = p + 1 \<or> a = p + 2 \<or> a = p + 3"
    by (metis add.commute add_0 diff_add_cancel)
  then show ?thesis
    by (auto simp add: write32_def byte_of_def)
next
  case False
  then show ?thesis by (simp add: write32_other)
qed

lemma off_sub:
  assumes "k \<le> unat (a - pg)" "k < 2 ^ 32"
  shows "unat (a - (pg + word_of_nat k :: 32 word)) = unat (a - pg) - k"
proof -
  have e: "a - (pg + word_of_nat k) = (a - pg) - word_of_nat k" by simp
  have uk: "unat (word_of_nat k :: 32 word) = k" using assms(2) by (simp add: unat_of_nat)
  show ?thesis unfolding e using assms(1) by (simp add: unat_sub_if' uk)
qed

lemma memset_off:
  "k + unat n \<le> 2 ^ 32 \<Longrightarrow>
   memset m (pg + word_of_nat k) v n a =
     (if k \<le> unat (a - pg) \<and> unat (a - pg) < k + unat n then v else m a)"
  by (simp add: memset_apply in_range_off)

lemma write32_off:
  assumes "k + 4 \<le> 2 ^ 32"
  shows "write32 m (pg + word_of_nat k) v a =
     (if k \<le> unat (a - pg) \<and> unat (a - pg) < k + 4 then byte_of v (unat (a - pg) - k) else m a)"
proof -
  have r: "(a - (pg + word_of_nat k) < 4) \<longleftrightarrow> (k \<le> unat (a - pg) \<and> unat (a - pg) < k + 4)"
    using in_range_off [of k 4 a pg] assms by simp
  show ?thesis
    unfolding write32_range r using assms by (simp add: off_sub)
qed

lemma read32_bytes:
  assumes "m a = byte_of v 0" "m (a + 1) = byte_of v 1" "m (a + 2) = byte_of v 2" "m (a + 3) = byte_of v 3"
  shows "read32 m a = v"
  using assms by (simp add: read32_def byte_of_def bytes4)

lemma add_off: "pg + word_of_nat k + w = pg + word_of_nat (k + unat (w :: 32 word))"
  by simp

section \<open>The image of a fresh page\<close>

text \<open>
  What \<open>CreatePage\<close> leaves at each offset of the new page, given the old heads
  \<open>pl0\<close> of the page list and \<open>fl0\<close> of the free list.  A chunk is a header of 12
  bytes, the left pad, the block, the right pad and the filler up to the next header;
  the first word of block \<open>i\<close> is overwritten by \<open>Push\<close> with the block pushed
  before it (\<open>link_of\<close>).
\<close>

definition link_of :: "config \<Rightarrow> addr \<Rightarrow> addr \<Rightarrow> nat \<Rightarrow> addr" where
  "link_of c pg fl0 i = (if i = 0 then fl0 else pg + of_nat (first c + (i - 1) * chunk c))"

definition chunk_image :: "config \<Rightarrow> addr \<Rightarrow> nat \<Rightarrow> byte" where
  "chunk_image c lnk j =
     (let pd = unat (padBytes c); bs = unat (blockSize c)
      in if j < 12 then 0
         else if j < 12 + pd then PAD
         else if j < 12 + pd + 4 then byte_of lnk (j - (12 + pd))
         else if j < 12 + pd + bs then UNALLOCATED
         else if j < 12 + pd + bs + pd then PAD
         else ALIGN)"

definition page_image :: "config \<Rightarrow> addr \<Rightarrow> addr \<Rightarrow> addr \<Rightarrow> nat \<Rightarrow> byte" where
  "page_image c pg pl0 fl0 off =
     (if off < 4 then byte_of pl0 off
      else if off < 4 + unat (leftAlign c) then ALIGN
      else let r = off - (4 + unat (leftAlign c))
           in chunk_image c (link_of c pg fl0 (r div chunk c)) (r mod chunk c))"

lemma chunk_pos: "0 < chunk c"
  by (simp add: chunk_def)

lemma page_image_chunk:
  "j < chunk c \<Longrightarrow>
   page_image c pg pl0 fl0 (4 + unat (leftAlign c) + i * chunk c + j) =
     chunk_image c (link_of c pg fl0 i) j"
  by (simp add: page_image_def Let_def)

section \<open>CreatePage: the loop\<close>

text \<open>
  \<open>at_pos i s\<close>: the loop state \<open>s\<close> stands at block \<open>i\<close>: the cursor is at the
  block, the free list ends in the block before it, and the page holds its final image
  below the cursor and is untouched from there on.
\<close>

definition at_pos :: "config \<Rightarrow> addr \<Rightarrow> addr \<Rightarrow> addr \<Rightarrow> mem \<Rightarrow> nat \<Rightarrow> mem \<times> addr \<times> addr \<Rightarrow> bool" where
  "at_pos c pg pl0 fl0 m0 i s \<longleftrightarrow>
     (case s of (m, fl, p) \<Rightarrow>
        p = pg + of_nat (first c + i * chunk c) \<and>
        fl = link_of c pg fl0 i \<and>
        (\<forall>a. m a = (if unat (a - pg) < first c + i * chunk c
                    then page_image c pg pl0 fl0 (unat (a - pg)) else m0 a)))"

lemma cp_step_pos:
  assumes ok: "cfg_ok c" and i: "Suc i < unat (blocksPerPage c)"
    and pos: "at_pos c pg pl0 fl0 m0 i s"
  shows "at_pos c pg pl0 fl0 m0 (Suc i) (cp_step c s)"
proof -
  obtain m fl p where s: "s = (m, fl, p)" by (cases s)
  let ?B = "first c + i * chunk c"
  let ?bs = "unat (blockSize c)" and ?pd = "unat (padBytes c)" and ?ia = "unat (interAlign c)"
  let ?la = "unat (leftAlign c)"
  have p: "p = pg + of_nat ?B" and fl: "fl = link_of c pg fl0 i"
    and m: "\<And>a. m a = (if unat (a - pg) < ?B then page_image c pg pl0 fl0 (unat (a - pg)) else m0 a)"
    using pos by (simp_all add: at_pos_def s)
  have "Suc (Suc i) * chunk c \<le> unat (blocksPerPage c) * chunk c"
    using i by (intro mult_le_mono1) simp
  then have bound: "4 + ?la + (i * chunk c + 2 * chunk c) < 2 ^ 32"
    using ok by (simp add: cfg_ok_def)
  have ch: "chunk c = ?bs + 2 * ?pd + ?ia + 12" by (simp add: chunk_def)
  have B: "?B = 4 + ?la + i * chunk c + (12 + ?pd)" by (simp add: first_def)
  have bs4: "4 \<le> ?bs" by (rule blockSize_ge)
  have r1: "?B + ?bs \<le> 2 ^ 32" "?B + 4 \<le> 2 ^ 32" "?B + ?bs + ?pd \<le> 2 ^ 32"
    "?B + ?bs + ?pd + ?ia \<le> 2 ^ 32" "?B + ?bs + ?pd + ?ia + 12 \<le> 2 ^ 32"
    "?B + ?bs + ?pd + ?ia + 12 + ?pd \<le> 2 ^ 32"
    using bound bs4 ch unfolding first_def by linarith+
  have step: "cp_step c s =
     (memset (memset (memset (memset (write32 (memset m (pg + of_nat ?B) UNALLOCATED (blockSize c))
         (pg + of_nat ?B) fl) (pg + of_nat (?B + ?bs)) PAD (padBytes c))
         (pg + of_nat (?B + ?bs + ?pd)) ALIGN (interAlign c))
         (pg + of_nat (?B + ?bs + ?pd + ?ia)) 0 headerSize)
         (pg + of_nat (?B + ?bs + ?pd + ?ia + 12)) PAD (padBytes c),
      pg + of_nat ?B, pg + of_nat (?B + ?bs + ?pd + ?ia + 12 + ?pd))"
    by (simp add: cp_step_def s p Let_def Push_def headerSize_def add.assoc)
  have next_B: "?B + ?bs + ?pd + ?ia + 12 + ?pd = first c + Suc i * chunk c"
    by (simp add: ch)
  have val: "(memset (memset (memset (memset (write32 (memset m (pg + of_nat ?B) UNALLOCATED (blockSize c))
         (pg + of_nat ?B) fl) (pg + of_nat (?B + ?bs)) PAD (padBytes c))
         (pg + of_nat (?B + ?bs + ?pd)) ALIGN (interAlign c))
         (pg + of_nat (?B + ?bs + ?pd + ?ia)) 0 headerSize)
         (pg + of_nat (?B + ?bs + ?pd + ?ia + 12)) PAD (padBytes c)) a =
       (if unat (a - pg) < first c + Suc i * chunk c
        then page_image c pg pl0 fl0 (unat (a - pg)) else m0 a)" for a
  proof -
    let ?o = "unat (a - pg)"
    have u12: "unat headerSize = 12" by (simp add: headerSize_def)
    have raw: "(memset (memset (memset (memset (write32 (memset m (pg + of_nat ?B) UNALLOCATED (blockSize c))
         (pg + of_nat ?B) fl) (pg + of_nat (?B + ?bs)) PAD (padBytes c))
         (pg + of_nat (?B + ?bs + ?pd)) ALIGN (interAlign c))
         (pg + of_nat (?B + ?bs + ?pd + ?ia)) 0 headerSize)
         (pg + of_nat (?B + ?bs + ?pd + ?ia + 12)) PAD (padBytes c)) a =
       (if ?o < ?B then m a
        else if ?o < ?B + 4 then byte_of fl (?o - ?B)
        else if ?o < ?B + ?bs then UNALLOCATED
        else if ?o < ?B + ?bs + ?pd then PAD
        else if ?o < ?B + ?bs + ?pd + ?ia then ALIGN
        else if ?o < ?B + ?bs + ?pd + ?ia + 12 then 0
        else if ?o < ?B + ?bs + ?pd + ?ia + 12 + ?pd then PAD
        else m a)"
      using r1 bs4 by (simp add: memset_off write32_off u12 del: of_nat_add of_nat_mult)
    consider (lo) "?o < ?B" | (blk) "?B \<le> ?o" "?o < ?B + ?bs + ?pd + ?ia"
      | (hdr) "?B + ?bs + ?pd + ?ia \<le> ?o" "?o < ?B + ?bs + ?pd + ?ia + 12 + ?pd"
      | (hi) "?B + ?bs + ?pd + ?ia + 12 + ?pd \<le> ?o"
      by linarith
    then show ?thesis
    proof cases
      case lo
      then show ?thesis unfolding raw using m [of a] next_B by simp
    next
      case blk
      obtain t where o: "?o = ?B + t" using blk(1) le_Suc_ex by blast
      have o': "?o = 4 + ?la + i * chunk c + (12 + ?pd + t)" unfolding o by (simp add: first_def)
      have t: "12 + ?pd + t < chunk c" "t < ?bs + ?pd + ?ia" using blk unfolding o ch by simp_all
      have pi: "page_image c pg pl0 fl0 ?o = chunk_image c (link_of c pg fl0 i) (12 + ?pd + t)"
        unfolding o' by (rule page_image_chunk [OF t(1)])
      have lt: "?o < first c + Suc i * chunk c" using blk next_B by linarith
      have "(if ?B + t < ?B then m a
        else if ?B + t < ?B + 4 then byte_of fl (?B + t - ?B)
        else if ?B + t < ?B + ?bs then UNALLOCATED
        else if ?B + t < ?B + ?bs + ?pd then PAD
        else if ?B + t < ?B + ?bs + ?pd + ?ia then ALIGN
        else if ?B + t < ?B + ?bs + ?pd + ?ia + 12 then 0
        else if ?B + t < ?B + ?bs + ?pd + ?ia + 12 + ?pd then PAD
        else m a) = chunk_image c (link_of c pg fl0 i) (12 + ?pd + t)"
        using t(2) bs4 by (simp add: chunk_image_def Let_def fl)
      then show ?thesis
        unfolding raw pi using lt unfolding o by simp
    next
      case hdr
      obtain t where o: "?o = ?B + ?bs + ?pd + ?ia + t" using hdr(1) le_Suc_ex by blast
      have o': "?o = 4 + ?la + Suc i * chunk c + t" unfolding o by (simp add: first_def ch)
      have t: "t < chunk c" "t < 12 + ?pd" using hdr unfolding o ch by simp_all
      have pi: "page_image c pg pl0 fl0 ?o = chunk_image c (link_of c pg fl0 (Suc i)) t"
        unfolding o' by (rule page_image_chunk [OF t(1)])
      have lt: "?o < first c + Suc i * chunk c" using hdr next_B by linarith
      have "(if ?B + ?bs + ?pd + ?ia + t < ?B then m a
        else if ?B + ?bs + ?pd + ?ia + t < ?B + 4 then byte_of fl (?B + ?bs + ?pd + ?ia + t - ?B)
        else if ?B + ?bs + ?pd + ?ia + t < ?B + ?bs then UNALLOCATED
        else if ?B + ?bs + ?pd + ?ia + t < ?B + ?bs + ?pd then PAD
        else if ?B + ?bs + ?pd + ?ia + t < ?B + ?bs + ?pd + ?ia then ALIGN
        else if ?B + ?bs + ?pd + ?ia + t < ?B + ?bs + ?pd + ?ia + 12 then 0
        else if ?B + ?bs + ?pd + ?ia + t < ?B + ?bs + ?pd + ?ia + 12 + ?pd then PAD
        else m a) = chunk_image c (link_of c pg fl0 (Suc i)) t"
        using t(2) bs4 by (simp add: chunk_image_def Let_def)
      then show ?thesis
        unfolding raw pi using lt unfolding o by simp
    next
      case hi
      then show ?thesis unfolding raw using m [of a] next_B by simp
    qed
  qed
  show ?thesis
    unfolding step at_pos_def using val
    by (simp add: next_B link_of_def)
qed

lemma cp_loop_pos:
  "cfg_ok c \<Longrightarrow> i + k < unat (blocksPerPage c) \<Longrightarrow> at_pos c pg pl0 fl0 m0 i s \<Longrightarrow>
   at_pos c pg pl0 fl0 m0 (i + k) (cp_loop c k s)"
proof (induction k arbitrary: i s)
  case 0
  then show ?case by simp
next
  case (Suc k)
  have "at_pos c pg pl0 fl0 m0 (Suc i) (cp_step c s)"
    using Suc.prems by (intro cp_step_pos) simp_all
  then have "at_pos c pg pl0 fl0 m0 (Suc i + k) (cp_loop c k (cp_step c s))"
    using Suc.prems by (intro Suc.IH) simp_all
  then show ?case by simp
qed

lemma first_bound: "cfg_ok c \<Longrightarrow> first c + unat (blockSize c) + unat (padBytes c) \<le> psize c"
  by (simp add: psize_eq)

lemma psize_bound: "cfg_ok c \<Longrightarrow> psize c < 2 ^ 32"
  unfolding cfg_ok_def psize_def by linarith

lemma cp_init_pos:
  assumes ok: "cfg_ok c"
  shows "at_pos c pg pl0 fl0 m0 0
     (memset (memset (memset (write32 m0 pg pl0) (pg + ptr_size) ALIGN (leftAlign c))
        (pg + ptr_size + leftAlign c) 0 headerSize)
        (pg + ptr_size + leftAlign c + headerSize) PAD (padBytes c),
      fl0, pg + ptr_size + leftAlign c + headerSize + padBytes c)"
proof -
  let ?la = "unat (leftAlign c)" and ?pd = "unat (padBytes c)"
  have b: "first c < 2 ^ 32"
    using first_bound [OF ok] psize_bound [OF ok] by linarith
  have e: "pg = pg + word_of_nat 0" "pg + ptr_size = pg + word_of_nat 4"
    "pg + ptr_size + leftAlign c = pg + word_of_nat (4 + ?la)"
    "pg + ptr_size + leftAlign c + headerSize = pg + word_of_nat (4 + ?la + 12)"
    "pg + ptr_size + leftAlign c + headerSize + padBytes c = pg + word_of_nat (first c)"
    by (simp_all add: ptr_size_def headerSize_def first_def)
  have u12: "unat headerSize = 12" by (simp add: headerSize_def)
  have val: "(memset (memset (memset (write32 m0 (pg + word_of_nat 0) pl0) (pg + word_of_nat 4) ALIGN (leftAlign c))
        (pg + word_of_nat (4 + ?la)) 0 headerSize)
        (pg + word_of_nat (4 + ?la + 12)) PAD (padBytes c)) a =
      (if unat (a - pg) < first c then page_image c pg pl0 fl0 (unat (a - pg)) else m0 a)" for a
  proof -
    let ?o = "unat (a - pg)"
    have raw: "(memset (memset (memset (write32 m0 (pg + word_of_nat 0) pl0) (pg + word_of_nat 4) ALIGN (leftAlign c))
        (pg + word_of_nat (4 + ?la)) 0 headerSize)
        (pg + word_of_nat (4 + ?la + 12)) PAD (padBytes c)) a =
        (if ?o < 4 then byte_of pl0 ?o
         else if ?o < 4 + ?la then ALIGN
         else if ?o < 4 + ?la + 12 then 0
         else if ?o < 4 + ?la + 12 + ?pd then PAD
         else m0 a)"
      using b by (simp add: memset_off write32_off u12 first_def
          memset_off [of 4, simplified] write32_off [of 0, simplified] del: of_nat_add of_nat_mult)
    show ?thesis
    proof (cases "4 + ?la \<le> ?o \<and> ?o < first c")
      case True
      then obtain t where o: "?o = 4 + ?la + 0 * chunk c + t" using le_Suc_ex by fastforce
      have t: "t < 12 + ?pd" using True unfolding o first_def by simp
      then have tc: "t < chunk c" by (simp add: chunk_def)
      have pi: "page_image c pg pl0 fl0 ?o = chunk_image c (link_of c pg fl0 0) t"
        unfolding o by (rule page_image_chunk [OF tc])
      show ?thesis
        unfolding raw pi using True t unfolding o
        by (simp add: chunk_image_def Let_def first_def)
    next
      case False
      then show ?thesis
        unfolding raw by (auto simp add: page_image_def first_def)
    qed
  qed
  show ?thesis
    unfolding at_pos_def using val
    by (simp add: link_of_def ptr_size_def headerSize_def first_def add.assoc)
qed

lemma CreatePage_heap:
  assumes ok: "cfg_ok c"
  shows "heap (CreatePage c pg st) a =
          (if unat (a - pg) < psize c
           then page_image c pg (pageList st) (freeList st) (unat (a - pg))
           else heap st a)"
    and "freeList (CreatePage c pg st) =
          pg + of_nat (first c + (unat (blocksPerPage c) - 1) * chunk c)"
    and "pageList (CreatePage c pg st) = pg"
proof -
  let ?n = "unat (blocksPerPage c)"
  let ?pl0 = "pageList st" and ?fl0 = "freeList st" and ?m0 = "heap st"
  let ?bs = "unat (blockSize c)" and ?pd = "unat (padBytes c)" and ?la = "unat (leftAlign c)"
  let ?s0 = "(memset (memset (memset (write32 ?m0 pg ?pl0) (pg + ptr_size) ALIGN (leftAlign c))
        (pg + ptr_size + leftAlign c) 0 headerSize)
        (pg + ptr_size + leftAlign c + headerSize) PAD (padBytes c),
      ?fl0, pg + ptr_size + leftAlign c + headerSize + padBytes c)"
  have n: "0 < ?n" using ok by (simp add: cfg_ok_def)
  then have "blocksPerPage c \<noteq> 0" by (metis unat_0 less_irrefl)
  then have k: "unat (blocksPerPage c - 1) = ?n - 1" by (rule unat_minus_one)
  have "at_pos c pg ?pl0 ?fl0 ?m0 (0 + (?n - 1)) (cp_loop c (?n - 1) ?s0)"
    using n by (intro cp_loop_pos [OF ok _ cp_init_pos [OF ok]]) simp
  then obtain m fl p where s: "cp_loop c (?n - 1) ?s0 = (m, fl, p)"
    and pos: "at_pos c pg ?pl0 ?fl0 ?m0 (?n - 1) (m, fl, p)"
    by (cases "cp_loop c (?n - 1) ?s0") auto
  let ?B = "first c + (?n - 1) * chunk c"
  have p: "p = pg + of_nat ?B" and fl: "fl = link_of c pg ?fl0 (?n - 1)"
    and m: "\<And>a. m a = (if unat (a - pg) < ?B then page_image c pg ?pl0 ?fl0 (unat (a - pg)) else ?m0 a)"
    using pos by (simp_all add: at_pos_def)
  have ps: "psize c = ?B + ?bs + ?pd" by (rule psize_eq [OF ok])
  have bs4: "4 \<le> ?bs" by (rule blockSize_ge)
  have pb: "?B + ?bs + ?pd < 2 ^ 32" using psize_bound [OF ok] ps by simp
  have cp: "CreatePage c pg st = st\<lparr>stats := (stats st)\<lparr>pagesInUse := pagesInUse (stats st) + 1,
                 freeBlocks := freeBlocks (stats st) + blocksPerPage c,
                 mostPagesInUse := (if pagesInUse (stats st) + 1 > mostPagesInUse (stats st)
                    then pagesInUse (stats st) + 1 else mostPagesInUse (stats st))\<rparr>,
              pageList := pg, freeList := pg + of_nat ?B,
              heap := memset (write32 (memset m (pg + of_nat ?B) UNALLOCATED (blockSize c)) (pg + of_nat ?B) fl)
                        (pg + of_nat (?B + ?bs)) PAD (padBytes c)\<rparr>"
    unfolding CreatePage_def Push_def Let_def prod.case k s
    by (simp add: p add.assoc)
  show "freeList (CreatePage c pg st) = pg + of_nat ?B" by (simp add: cp)
  show "pageList (CreatePage c pg st) = pg" by (simp add: cp)
  let ?o = "unat (a - pg)"
  have raw: "heap (CreatePage c pg st) a =
       (if ?o < ?B then m a
        else if ?o < ?B + 4 then byte_of fl (?o - ?B)
        else if ?o < ?B + ?bs then UNALLOCATED
        else if ?o < ?B + ?bs + ?pd then PAD
        else m a)"
    unfolding cp using pb bs4 by (simp add: memset_off write32_off del: of_nat_add of_nat_mult)
  show "heap (CreatePage c pg st) a =
          (if ?o < psize c then page_image c pg ?pl0 ?fl0 ?o else ?m0 a)"
  proof (cases "?B \<le> ?o \<and> ?o < ?B + ?bs + ?pd")
    case True
    then obtain t where o: "?o = ?B + t" using le_Suc_ex by blast
    have o': "?o = 4 + ?la + (?n - 1) * chunk c + (12 + ?pd + t)" unfolding o by (simp add: first_def)
    have t: "t < ?bs + ?pd" using True unfolding o by simp
    then have tc: "12 + ?pd + t < chunk c" by (simp add: chunk_def)
    have pi: "page_image c pg ?pl0 ?fl0 ?o = chunk_image c (link_of c pg ?fl0 (?n - 1)) (12 + ?pd + t)"
      unfolding o' by (rule page_image_chunk [OF tc])
    have "(if ?B + t < ?B then m a
        else if ?B + t < ?B + 4 then byte_of fl (?B + t - ?B)
        else if ?B + t < ?B + ?bs then UNALLOCATED
        else if ?B + t < ?B + ?bs + ?pd then PAD
        else m a) = chunk_image c (link_of c pg ?fl0 (?n - 1)) (12 + ?pd + t)"
      using t bs4 by (simp add: chunk_image_def Let_def fl)
    then show ?thesis
      unfolding raw pi ps using True unfolding o by simp
  next
    case False
    then show ?thesis
      unfolding raw ps using m [of a] bs4 by auto
  qed
qed

section \<open>CreatePage: the layout of the new page\<close>

text \<open>
  The address of block \<open>i\<close> of page \<open>pg\<close>, as \<open>DumpMemoryInUse\<close> computes it.
\<close>

definition block :: "config \<Rightarrow> addr \<Rightarrow> nat \<Rightarrow> addr" where
  "block c pg i = pg + (ptr_size + leftAlign c + headerSize + padBytes c) + of_nat i * interChunkSize c"

lemma of_nat_chunk: "cfg_ok c \<Longrightarrow> word_of_nat (chunk c) = interChunkSize c"
  using unat_interChunkSize [of c, symmetric] by simp

lemma block_off: "cfg_ok c \<Longrightarrow> block c pg i = pg + of_nat (first c + i * chunk c)"
  by (simp add: block_def first_def ptr_size_def headerSize_def of_nat_chunk)

lemma stats_CreatePage:
  "stats (CreatePage c pg st) = (stats st)\<lparr>pagesInUse := pagesInUse (stats st) + 1,
                 freeBlocks := freeBlocks (stats st) + blocksPerPage c,
                 mostPagesInUse := (if pagesInUse (stats st) + 1 > mostPagesInUse (stats st)
                    then pagesInUse (stats st) + 1 else mostPagesInUse (stats st))\<rparr>"
  by (simp add: CreatePage_def Let_def split: prod.splits)

lemma unat_off: "k < 2 ^ 32 \<Longrightarrow> unat (pg + word_of_nat k - pg :: 32 word) = k"
  by (simp add: unat_of_nat)

lemma unat_off': "k < 2 ^ 32 \<Longrightarrow> unat (word_of_nat k :: 32 word) = k"
  by (simp add: unat_of_nat)

lemma page_at:
  "cfg_ok c \<Longrightarrow> off < psize c \<Longrightarrow>
   heap (CreatePage c pg st) (pg + of_nat off) = page_image c pg (pageList st) (freeList st) off"
  using psize_bound [of c] by (simp add: CreatePage_heap unat_off' del: of_nat_add of_nat_mult)

lemma chunk_in_page:
  assumes ok: "cfg_ok c" and i: "i < unat (blocksPerPage c)"
    and j: "j < chunk c - unat (interAlign c)"
  shows "4 + unat (leftAlign c) + i * chunk c + j < psize c"
proof -
  have "Suc i * chunk c \<le> unat (blocksPerPage c) * chunk c"
    using i by (intro mult_le_mono1) simp
  then show ?thesis using j unfolding psize_def by simp
qed

lemma chunk_in_page':
  assumes ok: "cfg_ok c" and i: "Suc i < unat (blocksPerPage c)"
    and j: "j < chunk c"
  shows "4 + unat (leftAlign c) + i * chunk c + j < psize c"
proof -
  have "Suc (Suc i) * chunk c \<le> unat (blocksPerPage c) * chunk c"
    using i by (intro mult_le_mono1) simp
  moreover have "unat (interAlign c) \<le> chunk c" by (simp add: chunk_def)
  ultimately show ?thesis using j unfolding psize_def by simp
qed

lemma chunk_at:
  assumes ok: "cfg_ok c" and i: "i < unat (blocksPerPage c)"
    and j: "j < chunk c - unat (interAlign c) \<or> (Suc i < unat (blocksPerPage c) \<and> j < chunk c)"
  shows "heap (CreatePage c pg st) (pg + of_nat (4 + unat (leftAlign c) + i * chunk c + j)) =
         chunk_image c (link_of c pg (freeList st) i) j"
proof -
  have "4 + unat (leftAlign c) + i * chunk c + j < psize c"
    using j chunk_in_page [OF ok i] chunk_in_page' [OF ok] by blast
  moreover have "j < chunk c" using j by auto
  ultimately show ?thesis
    by (simp only: page_at [OF ok] page_image_chunk)
qed

lemma page_link:
  assumes ok: "cfg_ok c"
  shows "read32 (heap (CreatePage c pg st)) pg = pageList st"
proof -
  have p: "4 < psize c" using first_bound [OF ok] by (simp add: first_def)
  have b: "heap (CreatePage c pg st) (pg + of_nat k) = byte_of (pageList st) k" if "k < 4" for k
    using that p by (simp only: page_at [OF ok] page_image_def) simp
  show ?thesis
    using b [of 0] b [of 1] b [of 2] b [of 3] by (intro read32_bytes) simp_all
qed

lemma left_align_bytes:
  assumes ok: "cfg_ok c" and k: "k < unat (leftAlign c)"
  shows "heap (CreatePage c pg st) (pg + ptr_size + of_nat k) = ALIGN"
proof -
  have a: "pg + ptr_size + of_nat k = pg + of_nat (4 + k)" by (simp add: ptr_size_def)
  have p: "4 + k < psize c" using first_bound [OF ok] k by (simp add: first_def)
  show ?thesis
    unfolding a using k p by (simp only: page_at [OF ok] page_image_def) simp
qed

lemma header_bytes:
  assumes ok: "cfg_ok c" and i: "i < unat (blocksPerPage c)" and k: "k < 12"
  shows "heap (CreatePage c pg st) (block c pg i - padBytes c - headerSize + of_nat k) = 0"
proof -
  have a: "block c pg i - padBytes c - headerSize + of_nat k =
           pg + of_nat (4 + unat (leftAlign c) + i * chunk c + k)"
    by (simp add: block_off [OF ok] first_def headerSize_def)
  have j: "k < chunk c - unat (interAlign c)" using k by (simp add: chunk_def)
  show ?thesis
    unfolding a using k by (simp only: chunk_at [OF ok i disjI1 [OF j]]) (simp add: chunk_image_def)
qed

lemma left_pad_bytes:
  assumes ok: "cfg_ok c" and i: "i < unat (blocksPerPage c)" and k: "k < unat (padBytes c)"
  shows "heap (CreatePage c pg st) (block c pg i - padBytes c + of_nat k) = PAD"
proof -
  have a: "block c pg i - padBytes c + of_nat k =
           pg + of_nat (4 + unat (leftAlign c) + i * chunk c + (12 + k))"
    by (simp add: block_off [OF ok] first_def)
  have j: "12 + k < chunk c - unat (interAlign c)" using k by (simp add: chunk_def)
  show ?thesis
    unfolding a using k by (simp only: chunk_at [OF ok i disjI1 [OF j]]) (simp add: chunk_image_def)
qed

lemma block_link_byte:
  assumes ok: "cfg_ok c" and i: "i < unat (blocksPerPage c)" and k: "k < 4"
  shows "heap (CreatePage c pg st) (block c pg i + of_nat k) = byte_of (link_of c pg (freeList st) i) k"
proof -
  have a: "block c pg i + of_nat k =
           pg + of_nat (4 + unat (leftAlign c) + i * chunk c + (12 + unat (padBytes c) + k))"
    by (simp add: block_off [OF ok] first_def)
  have j: "12 + unat (padBytes c) + k < chunk c - unat (interAlign c)"
    using k blockSize_ge [of c] by (simp add: chunk_def)
  show ?thesis
    unfolding a using k
    by (simp only: chunk_at [OF ok i disjI1 [OF j]]) (simp add: chunk_image_def Let_def)
qed

lemma block_link:
  assumes ok: "cfg_ok c" and i: "i < unat (blocksPerPage c)"
  shows "read32 (heap (CreatePage c pg st)) (block c pg i) =
         (if i = 0 then freeList st else block c pg (i - 1))"
proof -
  have "read32 (heap (CreatePage c pg st)) (block c pg i) = link_of c pg (freeList st) i"
    using block_link_byte [OF ok i, of 0] block_link_byte [OF ok i, of 1]
      block_link_byte [OF ok i, of 2] block_link_byte [OF ok i, of 3]
    by (intro read32_bytes) simp_all
  then show ?thesis by (simp add: link_of_def block_off [OF ok])
qed

lemma block_bytes:
  assumes ok: "cfg_ok c" and i: "i < unat (blocksPerPage c)"
    and k: "4 \<le> k" "k < unat (blockSize c)"
  shows "heap (CreatePage c pg st) (block c pg i + of_nat k) = UNALLOCATED"
proof -
  have a: "block c pg i + of_nat k =
           pg + of_nat (4 + unat (leftAlign c) + i * chunk c + (12 + unat (padBytes c) + k))"
    by (simp add: block_off [OF ok] first_def)
  have j: "12 + unat (padBytes c) + k < chunk c - unat (interAlign c)"
    using k by (simp add: chunk_def)
  show ?thesis
    unfolding a using k
    by (simp only: chunk_at [OF ok i disjI1 [OF j]]) (simp add: chunk_image_def Let_def)
qed

lemma right_pad_bytes:
  assumes ok: "cfg_ok c" and i: "i < unat (blocksPerPage c)" and k: "k < unat (padBytes c)"
  shows "heap (CreatePage c pg st) (block c pg i + blockSize c + of_nat k) = PAD"
proof -
  have a: "block c pg i + blockSize c + of_nat k =
           pg + of_nat (4 + unat (leftAlign c) + i * chunk c +
                        (12 + unat (padBytes c) + unat (blockSize c) + k))"
    by (simp add: block_off [OF ok] first_def)
  have j: "12 + unat (padBytes c) + unat (blockSize c) + k < chunk c - unat (interAlign c)"
    using k by (simp add: chunk_def)
  show ?thesis
    unfolding a using k blockSize_ge [of c]
    by (simp only: chunk_at [OF ok i disjI1 [OF j]]) (simp add: chunk_image_def Let_def)
qed

lemma inter_align_bytes:
  assumes ok: "cfg_ok c" and i: "Suc i < unat (blocksPerPage c)" and k: "k < unat (interAlign c)"
  shows "heap (CreatePage c pg st) (block c pg i + blockSize c + padBytes c + of_nat k) = ALIGN"
proof -
  have a: "block c pg i + blockSize c + padBytes c + of_nat k =
           pg + of_nat (4 + unat (leftAlign c) + i * chunk c +
                        (12 + unat (padBytes c) + unat (blockSize c) + unat (padBytes c) + k))"
    by (simp add: block_off [OF ok] first_def)
  have j: "12 + unat (padBytes c) + unat (blockSize c) + unat (padBytes c) + k < chunk c"
    using k by (simp add: chunk_def)
  have i': "i < unat (blocksPerPage c)" using i by simp
  show ?thesis
    unfolding a using k blockSize_ge [of c]
    by (simp only: chunk_at [OF ok i' disjI2 [OF conjI [OF i j]]]) (simp add: chunk_image_def Let_def)
qed

lemma page_end:
  assumes ok: "cfg_ok c"
  shows "block c pg (unat (blocksPerPage c) - 1) + blockSize c + padBytes c = pg + pageSize c"
proof -
  have "pageSize c = of_nat (psize c)"
    using unat_pageSize [OF ok, symmetric] by simp
  then show ?thesis
    by (simp add: psize_eq [OF ok] block_off [OF ok])
qed

lemma outside_page:
  assumes ok: "cfg_ok c" and a: "\<not> a - pg < pageSize c"
  shows "heap (CreatePage c pg st) a = heap st a"
  using a by (simp add: CreatePage_heap [OF ok] word_less_nat_alt unat_pageSize [OF ok])

lemma cfg_ok_cfg2: "cfg_ok cfg2"
  by (simp add: cfg_ok_def chunk_def cfg2_vals)

text \<open>
  Claim C5 says that every byte of every block of a fresh page is \<open>UNALLOCATED\<close>.
  The first block of the first page of the example pool starts with a zero byte: \<open>Push\<close>
  has written the free-list link (here the null pointer) over the first word of the
  block, after the block was filled with \<open>UNALLOCATED\<close>.
\<close>

theorem C5_block_bytes_counterexample:
  "\<not> (\<forall>i < unat (blocksPerPage cfg2). \<forall>k < unat (blockSize cfg2).
        heap (CreatePage cfg2 0x1000 pool0) (block cfg2 0x1000 i + of_nat k) = UNALLOCATED)"
proof
  assume a: "\<forall>i < unat (blocksPerPage cfg2). \<forall>k < unat (blockSize cfg2).
        heap (CreatePage cfg2 0x1000 pool0) (block cfg2 0x1000 i + of_nat k) = UNALLOCATED"
  have "heap (CreatePage cfg2 0x1000 pool0) (block cfg2 0x1000 0 + of_nat 0) = UNALLOCATED"
    by (rule a [rule_format]) (simp_all add: cfg2_vals)
  moreover have "heap (CreatePage cfg2 0x1000 pool0) (block cfg2 0x1000 0 + of_nat 0) =
      byte_of (link_of cfg2 0x1000 (freeList pool0) 0) 0"
    by (rule block_link_byte [OF cfg_ok_cfg2]) (simp_all add: cfg2_vals)
  ultimately show False
    by (simp add: link_of_def pool0_def new_pool_def byte_of_def UNALLOCATED_def)
qed

text \<open>
  Claim C5, amended.  For a configuration whose sizes do not overflow, \<open>CreatePage\<close>
  lays the new page out as: the page-list link word (the old head of the page list),
  \<open>leftAlign\<close> bytes \<open>0xEE\<close>, then \<open>blocksPerPage\<close> chunks; in each chunk the 12 header
  bytes are zero, the pad bytes on both sides of the block are \<open>0xDD\<close>, the first word
  of the block holds the free-list link (the block pushed before it, or the old head of
  the free list for the first block) and every later byte of the block is \<open>0xFF\<close>, and
  the \<open>interAlign\<close> bytes after every chunk but the last are \<open>0xEE\<close>.  The page ends
  with the right pad of the last block, and no byte outside the page changes.  The last
  block is the new head of the free list and the new page the head of the page list;
  \<open>freeBlocks\<close> grows by \<open>blocksPerPage\<close> and \<open>pagesInUse\<close> by 1.
\<close>

theorem C5_CreatePage_layout:
  assumes ok: "cfg_ok c"
  shows "(let st' = CreatePage c pg st; m = heap st'; n = unat (blocksPerPage c) in
     read32 m pg = pageList st \<and>
     (\<forall>k < unat (leftAlign c). m (pg + ptr_size + of_nat k) = 0xEE) \<and>
     (\<forall>i < n.
        (\<forall>k < 12. m (block c pg i - padBytes c - headerSize + of_nat k) = 0) \<and>
        (\<forall>k < unat (padBytes c).
           m (block c pg i - padBytes c + of_nat k) = 0xDD \<and>
           m (block c pg i + blockSize c + of_nat k) = 0xDD) \<and>
        read32 m (block c pg i) = (if i = 0 then freeList st else block c pg (i - 1)) \<and>
        (\<forall>k. 4 \<le> k \<and> k < unat (blockSize c) \<longrightarrow> m (block c pg i + of_nat k) = 0xFF) \<and>
        (Suc i < n \<longrightarrow>
           (\<forall>k < unat (interAlign c). m (block c pg i + blockSize c + padBytes c + of_nat k) = 0xEE))) \<and>
     block c pg (n - 1) + blockSize c + padBytes c = pg + pageSize c \<and>
     (\<forall>a. \<not> a - pg < pageSize c \<longrightarrow> m a = heap st a) \<and>
     freeList st' = block c pg (n - 1) \<and>
     pageList st' = pg \<and>
     freeBlocks (stats st') = freeBlocks (stats st) + blocksPerPage c \<and>
     pagesInUse (stats st') = pagesInUse (stats st) + 1)"
  unfolding Let_def
  using page_link [OF ok, of pg st] left_align_bytes [OF ok, of _ pg st]
    header_bytes [OF ok, of _ _ pg st] left_pad_bytes [OF ok, of _ _ pg st]
    right_pad_bytes [OF ok, of _ _ pg st] block_link [OF ok, of _ pg st]
    block_bytes [OF ok, of _ _ pg st] inter_align_bytes [OF ok, of _ _ pg st]
    page_end [OF ok, of pg] outside_page [OF ok, of _ pg st]
    CreatePage_heap(2,3) [OF ok, of pg st]
  by (simp add: stats_CreatePage block_off [OF ok] PAD_def ALIGN_def UNALLOCATED_def)

theorem C5_CreatePage_layout_witness:
  "cfg_ok cfg2 \<and>
   read32 (heap (CreatePage cfg2 0x1000 pool0)) 0x1000 = 0 \<and>
   heap (CreatePage cfg2 0x1000 pool0) 0x1004 = 0xEE \<and>
   heap (CreatePage cfg2 0x1000 pool0) 0x1006 = 0 \<and>
   heap (CreatePage cfg2 0x1000 pool0) 0x1012 = 0xDD \<and>
   read32 (heap (CreatePage cfg2 0x1000 pool0)) 0x1014 = 0 \<and>
   heap (CreatePage cfg2 0x1000 pool0) 0x1018 = 0xFF \<and>
   heap (CreatePage cfg2 0x1000 pool0) 0x101C = 0xDD \<and>
   read32 (heap (CreatePage cfg2 0x1000 pool0)) 0x102C = 0x1014 \<and>
   freeList (CreatePage cfg2 0x1000 pool0) = 0x102C \<and>
   freeBlocks (stats (CreatePage cfg2 0x1000 pool0)) = 2"
proof -
  let ?m = "heap (CreatePage cfg2 0x1000 pool0)"
  have b: "block cfg2 0x1000 0 = 0x1014" "block cfg2 0x1000 (Suc 0) = 0x102C"
    by (simp_all add: block_def cfg2_vals ptr_size_def headerSize_def)
  note t = C5_CreatePage_layout [OF cfg_ok_cfg2, of "0x1000" pool0, unfolded Let_def]
  have l: "read32 ?m 0x1000 = 0"
    using t by (simp add: pool0_def new_pool_def)
  have la: "k < 2 \<Longrightarrow> ?m (0x1000 + ptr_size + of_nat k) = 0xEE" for k
    using t by (simp add: cfg2_vals)
  have hd: "i < 2 \<Longrightarrow> k < 12 \<Longrightarrow> ?m (block cfg2 0x1000 i - padBytes cfg2 - headerSize + of_nat k) = 0" for i k
    using t by (simp add: cfg2_vals)
  have pd: "i < 2 \<Longrightarrow> k < 2 \<Longrightarrow> ?m (block cfg2 0x1000 i - padBytes cfg2 + of_nat k) = 0xDD
       \<and> ?m (block cfg2 0x1000 i + blockSize cfg2 + of_nat k) = 0xDD" for i k
    using t by (simp add: cfg2_vals)
  have lk: "i < 2 \<Longrightarrow> read32 ?m (block cfg2 0x1000 i) = (if i = 0 then freeList pool0 else block cfg2 0x1000 (i - 1))" for i
    using t by (simp add: cfg2_vals)
  have bb: "i < 2 \<Longrightarrow> 4 \<le> k \<Longrightarrow> k < 8 \<Longrightarrow> ?m (block cfg2 0x1000 i + of_nat k) = 0xFF" for i k
    using t by (simp add: cfg2_vals)
  have f: "freeList (CreatePage cfg2 0x1000 pool0) = block cfg2 0x1000 1"
    "freeBlocks (stats (CreatePage cfg2 0x1000 pool0)) = 2"
    using t by (simp_all add: cfg2_vals pool0_def new_pool_def no_stats_def)
  show ?thesis
    using l la [of 0] hd [of 0 0] pd [of 0 0] lk [of 0] lk [of 1] bb [of 0 4] f cfg_ok_cfg2
    by (simp add: b cfg2_vals ptr_size_def headerSize_def pool0_def new_pool_def)
qed

section \<open>Pages that do not overlap, and the blocks in them\<close>

text \<open>
  What \<open>new char[pageSize]\<close> guarantees for a page at \<open>pg\<close>: it is not the null
  pointer and it ends within the address space; and two pages do not overlap.
\<close>

definition page_ok :: "config \<Rightarrow> addr \<Rightarrow> bool" where
  "page_ok c pg \<longleftrightarrow> pg \<noteq> 0 \<and> unat pg + psize c \<le> 2 ^ 32"

definition apart :: "config \<Rightarrow> addr \<Rightarrow> addr \<Rightarrow> bool" where
  "apart c p q \<longleftrightarrow> unat p + psize c \<le> unat q \<or> unat q + psize c \<le> unat p"

definition pages_ok :: "config \<Rightarrow> addr list \<Rightarrow> bool" where
  "pages_ok c ps \<longleftrightarrow>
     (\<forall>p\<in>set ps. page_ok c p) \<and> (\<forall>p\<in>set ps. \<forall>q\<in>set ps. p \<noteq> q \<longrightarrow> apart c p q)"

definition is_block :: "config \<Rightarrow> addr list \<Rightarrow> addr \<Rightarrow> bool" where
  "is_block c ps x \<longleftrightarrow> (\<exists>pg\<in>set ps. \<exists>i < unat (blocksPerPage c). x = block c pg i)"

text \<open>Offsets in a page: of the header of block \<open>i\<close>, and of the block itself.\<close>

definition hdr_off :: "config \<Rightarrow> nat \<Rightarrow> nat" where
  "hdr_off c i = 4 + unat (leftAlign c) + i * chunk c"

definition blk_off :: "config \<Rightarrow> nat \<Rightarrow> nat" where
  "blk_off c i = first c + i * chunk c"

text \<open>
  \<open>in_mod\<close>: the bytes \<open>Allocate\<close> and \<open>Free\<close> write for block \<open>i\<close> of page \<open>pg\<close> (its
  header and the block); \<open>in_chunk\<close>: header, pads and block.
\<close>

definition in_mod :: "config \<Rightarrow> addr \<Rightarrow> nat \<Rightarrow> addr \<Rightarrow> bool" where
  "in_mod c pg i a \<longleftrightarrow>
     (hdr_off c i \<le> unat (a - pg) \<and> unat (a - pg) < hdr_off c i + 12) \<or>
     (blk_off c i \<le> unat (a - pg) \<and> unat (a - pg) < blk_off c i + unat (blockSize c))"

definition in_chunk :: "config \<Rightarrow> addr \<Rightarrow> nat \<Rightarrow> addr \<Rightarrow> bool" where
  "in_chunk c pg i a \<longleftrightarrow>
     hdr_off c i \<le> unat (a - pg) \<and>
     unat (a - pg) < blk_off c i + unat (blockSize c) + unat (padBytes c)"

lemma blk_hdr: "blk_off c i = hdr_off c i + 12 + unat (padBytes c)"
  by (simp add: blk_off_def hdr_off_def first_def)

lemma in_mod_chunk: "in_mod c pg i a \<Longrightarrow> in_chunk c pg i a"
  by (auto simp add: in_mod_def in_chunk_def blk_hdr)

lemma chunk_end:
  assumes "cfg_ok c" "i < unat (blocksPerPage c)"
  shows "blk_off c i + unat (blockSize c) + unat (padBytes c) \<le> psize c"
proof -
  have "i * chunk c \<le> (unat (blocksPerPage c) - 1) * chunk c"
    using assms(2) by (intro mult_le_mono1) simp
  then show ?thesis unfolding psize_eq [OF assms(1)] blk_off_def by simp
qed

lemma chunk_next: "blk_off c i + unat (blockSize c) + unat (padBytes c) \<le> hdr_off c (Suc i)"
  by (simp add: blk_off_def hdr_off_def first_def chunk_def)

lemma hdr_mono: "i \<le> j \<Longrightarrow> hdr_off c i \<le> hdr_off c j"
  by (simp add: hdr_off_def)

lemma in_chunk_page:
  "cfg_ok c \<Longrightarrow> i < unat (blocksPerPage c) \<Longrightarrow> in_chunk c pg i a \<Longrightarrow> unat (a - pg) < psize c"
  using chunk_end [of c i] by (simp add: in_chunk_def)

lemma in_chunk_lo: "in_chunk c pg i a \<Longrightarrow> 4 \<le> unat (a - pg)"
  by (simp add: in_chunk_def hdr_off_def)

lemma chunk_disjoint_same:
  assumes "i \<noteq> j" "in_chunk c pg i a"
  shows "\<not> in_chunk c pg j a"
proof (cases "i < j")
  case True
  then have "hdr_off c (Suc i) \<le> hdr_off c j" by (intro hdr_mono) simp
  with chunk_next [of c i] assms(2) show ?thesis by (simp add: in_chunk_def)
next
  case False
  then have "hdr_off c (Suc j) \<le> hdr_off c i" using assms(1) by (intro hdr_mono) simp
  with chunk_next [of c j] assms(2) show ?thesis by (simp add: in_chunk_def)
qed

lemma pages_disjoint:
  assumes "page_ok c p" "page_ok c q" "apart c p q" "unat (a - p) < psize c"
  shows "\<not> unat (a - q) < psize c"
proof
  assume q: "unat (a - q) < psize c"
  have "unat p + unat (a - p) < 2 ^ LENGTH(32)"
    using assms(1,4) unfolding page_ok_def by simp
  then have "unat (p + (a - p)) = unat p + unat (a - p)"
    by (rule unat_add_lem [THEN iffD1])
  then have ap: "unat a = unat p + unat (a - p)" by simp
  have "unat q + unat (a - q) < 2 ^ LENGTH(32)"
    using assms(2) q unfolding page_ok_def by simp
  then have "unat (q + (a - q)) = unat q + unat (a - q)"
    by (rule unat_add_lem [THEN iffD1])
  then have aq: "unat a = unat q + unat (a - q)" by simp
  show False using assms(3,4) q ap aq unfolding apart_def by linarith
qed

lemma chunk_disjoint:
  assumes ok: "cfg_ok c" and ps: "pages_ok c ps"
    and p: "p \<in> set ps" "i < unat (blocksPerPage c)"
    and q: "q \<in> set ps" "j < unat (blocksPerPage c)"
    and ne: "p \<noteq> q \<or> i \<noteq> j"
    and a: "in_chunk c p i a"
  shows "\<not> in_chunk c q j a"
proof (cases "p = q")
  case True
  with ne a show ?thesis using chunk_disjoint_same by blast
next
  case False
  have "\<not> unat (a - q) < psize c"
    using ps p(1) q(1) False in_chunk_page [OF ok p(2) a]
    by (intro pages_disjoint [of c p q]) (auto simp add: pages_ok_def)
  then show ?thesis using in_chunk_page [OF ok q(2)] by blast
qed

lemma link_not_in_chunk:
  assumes ok: "cfg_ok c" and ps: "pages_ok c ps"
    and p: "p \<in> set ps" "i < unat (blocksPerPage c)"
    and q: "q \<in> set ps" and b: "b - q < 4"
  shows "\<not> in_chunk c p i b"
proof (cases "p = q")
  case True
  have "unat (b - q) < 4" using b by (simp add: word_less_nat_alt)
  then show ?thesis using in_chunk_lo [of c p i b] True by auto
next
  case False
  have "unat (b - q) < 4" using b by (simp add: word_less_nat_alt)
  moreover have "4 < psize c" using first_bound [OF ok] by (simp add: first_def)
  ultimately have "unat (b - q) < psize c" by simp
  then have "\<not> unat (b - p) < psize c"
    using ps p(1) q False
    by (intro pages_disjoint [of c q p]) (auto simp add: pages_ok_def)
  then show ?thesis using in_chunk_page [OF ok p(2)] by blast
qed

section \<open>What Allocate and Free write\<close>

lemma blk_bound:
  assumes "cfg_ok c" "i < unat (blocksPerPage c)"
  shows "blk_off c i + unat (blockSize c) + unat (padBytes c) < 2 ^ 32"
  using chunk_end [OF assms] psize_bound [OF assms(1)] by linarith

lemma block_addr: "cfg_ok c \<Longrightarrow> block c pg i = pg + of_nat (blk_off c i)"
  by (simp add: block_off blk_off_def)

lemma hdr_addr: "cfg_ok c \<Longrightarrow> block c pg i - padBytes c - headerSize = pg + of_nat (hdr_off c i)"
  by (simp add: block_off hdr_off_def first_def headerSize_def)

lemma eq_off:
  assumes "k < 2 ^ 32"
  shows "(a = pg + (word_of_nat k :: 32 word)) \<longleftrightarrow> unat (a - pg) = k"
proof
  assume "a = pg + word_of_nat k"
  then show "unat (a - pg) = k" using assms by (simp add: unat_of_nat)
next
  assume "unat (a - pg) = k"
  then have "word_of_nat k = a - pg" by auto
  then show "a = pg + word_of_nat k" by simp
qed

lemma Allocate_heap:
  assumes ok: "cfg_ok c" and i: "i < unat (blocksPerPage c)"
    and fl: "freeList st = block c pg i" "freeList st \<noteq> 0"
  shows "heap (snd (Allocate c pg' st fname line)) a =
     (let off = unat (a - pg); H = hdr_off c i; B = blk_off c i
      in if H + 4 \<le> off \<and> off < H + 8 then byte_of fname (off - (H + 4))
         else if H + 8 \<le> off \<and> off < H + 12 then byte_of line (off - (H + 8))
         else if off = H then 1
         else if B \<le> off \<and> off < B + unat (blockSize c) then ALLOCATED
         else heap st a)"
    and "fst (Allocate c pg' st fname line) = freeList st"
    and "freeList (snd (Allocate c pg' st fname line)) = read32 (heap st) (freeList st)"
    and "pageList (snd (Allocate c pg' st fname line)) = pageList st"
proof -
  let ?H = "hdr_off c i" and ?B = "blk_off c i"
  have b: "?B + unat (blockSize c) < 2 ^ 32" "?H + 12 < 2 ^ 32" "?H < 2 ^ 32"
    using blk_bound [OF ok i] by (simp_all add: blk_hdr)
  have x: "freeList st = pg + of_nat ?B" by (simp add: fl block_addr [OF ok])
  have d: "freeList st - headerSize - padBytes c = pg + of_nat ?H"
    using hdr_addr [OF ok, of pg i] by (metis diff_right_commute fl(1))
  have d4: "pg + word_of_nat ?H + 4 = pg + word_of_nat (?H + 4)"
    and d8: "pg + word_of_nat ?H + 8 = pg + word_of_nat (?H + 8)" by simp_all
  have al: "snd (Allocate c pg' st fname line) =
     st\<lparr>stats := (stats st)\<lparr>allocations := allocations (stats st) + 1,
                 blocksInUse := blocksInUse (stats st) + 1,
                 mostBlocksInUse := (if blocksInUse (stats st) + 1 > mostBlocksInUse (stats st)
                    then blocksInUse (stats st) + 1 else mostBlocksInUse (stats st)),
                 freeBlocks := freeBlocks (stats st) - 1\<rparr>,
        freeList := read32 (heap st) (freeList st),
        heap := write32 (write32 ((memset (heap st) (pg + of_nat ?B) ALLOCATED (blockSize c))
                  (pg + of_nat ?H := 1)) (pg + of_nat (?H + 8)) line) (pg + of_nat (?H + 4)) fname\<rparr>"
    unfolding Allocate_def Let_def Pop_def using fl(2)
    by (simp add: d d4 d8 del: of_nat_add of_nat_mult) (simp add: x)
  show "heap (snd (Allocate c pg' st fname line)) a =
     (let off = unat (a - pg); H = hdr_off c i; B = blk_off c i
      in if H + 4 \<le> off \<and> off < H + 8 then byte_of fname (off - (H + 4))
         else if H + 8 \<le> off \<and> off < H + 12 then byte_of line (off - (H + 8))
         else if off = H then 1
         else if B \<le> off \<and> off < B + unat (blockSize c) then ALLOCATED
         else heap st a)"
    unfolding al Let_def using b
    by (simp add: write32_off memset_off eq_off del: of_nat_add of_nat_mult)
  show "fst (Allocate c pg' st fname line) = freeList st"
    unfolding Allocate_def Let_def Pop_def using fl(2) by simp
  show "freeList (snd (Allocate c pg' st fname line)) = read32 (heap st) (freeList st)"
    by (simp add: al)
  show "pageList (snd (Allocate c pg' st fname line)) = pageList st"
    by (simp add: al)
qed

lemma release_heap:
  assumes ok: "cfg_ok c" and i: "i < unat (blocksPerPage c)"
    and x: "x = block c pg i"
  shows "heap (fst (release c st x)) a =
     (let off = unat (a - pg); H = hdr_off c i; B = blk_off c i
      in if B \<le> off \<and> off < B + 4 then byte_of (freeList st) (off - B)
         else if H \<le> off \<and> off < H + 12 then 0
         else if B \<le> off \<and> off < B + unat (blockSize c) then FREED
         else heap st a)"
    and "freeList (fst (release c st x)) = x"
    and "pageList (fst (release c st x)) = pageList st"
    and "snd (release c st x) = Returned 0"
proof -
  let ?H = "hdr_off c i" and ?B = "blk_off c i"
  have b: "?B + unat (blockSize c) < 2 ^ 32" "?H + 12 < 2 ^ 32" "?H < 2 ^ 32" "?B + 4 < 2 ^ 32"
    using blk_bound [OF ok i] blockSize_ge [of c] by (simp_all add: blk_hdr)
  have x': "x = pg + of_nat ?B" by (simp add: x block_addr [OF ok])
  have d: "x - headerSize - padBytes c = pg + of_nat ?H"
    using hdr_addr [OF ok, of pg i] by (metis diff_right_commute x)
  have u12: "unat headerSize = 12" by (simp add: headerSize_def)
  have rl: "fst (release c st x) =
     st\<lparr>stats := (stats st)\<lparr>deallocations := deallocations (stats st) + 1,
                 blocksInUse := blocksInUse (stats st) - 1,
                 freeBlocks := freeBlocks (stats st) + 1\<rparr>,
        freeList := x,
        heap := write32 (memset (memset (heap st) (pg + of_nat ?B) FREED (blockSize c))
                  (pg + of_nat ?H) 0 headerSize) (pg + of_nat ?B) (freeList st)\<rparr>"
    unfolding release_def Let_def Push_def d by (simp add: x')
  show "heap (fst (release c st x)) a =
     (let off = unat (a - pg); H = hdr_off c i; B = blk_off c i
      in if B \<le> off \<and> off < B + 4 then byte_of (freeList st) (off - B)
         else if H \<le> off \<and> off < H + 12 then 0
         else if B \<le> off \<and> off < B + unat (blockSize c) then FREED
         else heap st a)"
    unfolding rl Let_def using b
    by (simp add: write32_off memset_off u12 del: of_nat_add of_nat_mult)
  show "freeList (fst (release c st x)) = x" by (simp add: rl)
  show "pageList (fst (release c st x)) = pageList st" by (simp add: rl)
  show "snd (release c st x) = Returned 0"
    by (simp add: release_def Let_def split: prod.splits)
qed

section \<open>The invariant of an allocator\<close>

text \<open>
  \<open>pool_inv c st ps xs\<close>: the page list of \<open>st\<close> is the list \<open>ps\<close> of pages that do
  not overlap, and its free list is the list \<open>xs\<close> of distinct blocks of these pages,
  each with a cleared header.  \<open>pads_ok\<close>: the pads of every block are intact.
\<close>

definition pool_inv :: "config \<Rightarrow> pool \<Rightarrow> addr list \<Rightarrow> addr list \<Rightarrow> bool" where
  "pool_inv c st ps xs \<longleftrightarrow>
     chain (heap st) (pageList st) ps \<and> pages_ok c ps \<and>
     chain (heap st) (freeList st) xs \<and> distinct xs \<and>
     (\<forall>x\<in>set xs. is_block c ps x \<and> heap st (x - padBytes c - headerSize) = 0)"

definition pads_ok :: "config \<Rightarrow> mem \<Rightarrow> addr list \<Rightarrow> bool" where
  "pads_ok c m ps \<longleftrightarrow>
     (\<forall>pg\<in>set ps. \<forall>i < unat (blocksPerPage c). pads_intact c m (block c pg i))"

lemma unat_page_off:
  assumes "page_ok c pg" "k < psize c"
  shows "unat (pg + word_of_nat k) = unat pg + k"
proof -
  have k: "unat (word_of_nat k :: 32 word) = k"
    using assms unfolding page_ok_def by (simp add: unat_of_nat)
  have "unat pg + unat (word_of_nat k :: 32 word) < 2 ^ LENGTH(32)"
    using assms unfolding page_ok_def k by simp
  then have "unat (pg + word_of_nat k) = unat pg + unat (word_of_nat k :: 32 word)"
    by (rule unat_add_lem [THEN iffD1])
  then show ?thesis by (simp only: k)
qed

lemma block_nonzero:
  assumes ok: "cfg_ok c" and pg: "page_ok c pg" and i: "i < unat (blocksPerPage c)"
  shows "block c pg i \<noteq> 0"
proof
  assume z: "block c pg i = 0"
  have "blk_off c i < psize c" using chunk_end [OF ok i] blockSize_ge [of c] by simp
  then have "unat (block c pg i) = unat pg + blk_off c i"
    unfolding block_addr [OF ok] by (rule unat_page_off [OF pg])
  moreover have "0 < unat pg" using pg by (simp add: page_ok_def unat_gt_0)
  ultimately show False using z by simp
qed

lemma off_of_block:
  assumes ok: "cfg_ok c" and i: "i < unat (blocksPerPage c)"
  shows "unat (block c pg i - pg) = blk_off c i"
    and "unat (block c pg i - padBytes c - headerSize - pg) = hdr_off c i"
proof -
  have b: "blk_off c i < 2 ^ 32" "hdr_off c i < 2 ^ 32"
    using blk_bound [OF ok i] by (simp_all add: blk_hdr)
  show "unat (block c pg i - pg) = blk_off c i"
    unfolding block_addr [OF ok] using b by (simp add: unat_of_nat del: of_nat_add of_nat_mult)
  show "unat (block c pg i - padBytes c - headerSize - pg) = hdr_off c i"
    unfolding hdr_addr [OF ok] using b by (simp add: unat_of_nat del: of_nat_add of_nat_mult)
qed

lemma link_in_mod:
  assumes ok: "cfg_ok c" and i: "i < unat (blocksPerPage c)" and b: "b - block c pg i < 4"
  shows "in_mod c pg i b"
proof -
  have "blk_off c i + unat (4 :: 32 word) \<le> 2 ^ 32"
    using blk_bound [OF ok i] blockSize_ge [of c] by simp
  from in_range_off [OF this, of b pg] b
  have "blk_off c i \<le> unat (b - pg) \<and> unat (b - pg) < blk_off c i + 4"
    by (simp add: block_addr [OF ok])
  then show ?thesis using blockSize_ge [of c] by (simp add: in_mod_def)
qed

lemma hdr_in_mod:
  assumes ok: "cfg_ok c" and i: "i < unat (blocksPerPage c)"
  shows "in_mod c pg i (block c pg i - padBytes c - headerSize)"
  by (simp add: in_mod_def off_of_block [OF ok i])

lemma pad_addrs:
  assumes ok: "cfg_ok c" and i: "i < unat (blocksPerPage c)" and k: "k < unat (padBytes c)"
  shows "unat (block c pg i - 1 - of_nat k - pg) = blk_off c i - 1 - k"
    and "unat (block c pg i + blockSize c + of_nat k - pg) = blk_off c i + unat (blockSize c) + k"
proof -
  have b: "blk_off c i + unat (blockSize c) + unat (padBytes c) < 2 ^ 32"
    by (rule blk_bound [OF ok i])
  have le: "1 + k \<le> blk_off c i" using k by (simp add: blk_hdr)
  have "block c pg i - 1 - of_nat k - pg = (of_nat (blk_off c i) :: 32 word) - of_nat (1 + k)"
    by (simp add: block_addr [OF ok])
  also have "\<dots> = of_nat (blk_off c i - (1 + k))"
    using le by (simp only: of_nat_diff)
  finally show "unat (block c pg i - 1 - of_nat k - pg) = blk_off c i - 1 - k"
    using b by (simp add: unat_of_nat)
  have e2: "block c pg i + blockSize c + of_nat k - pg =
      (of_nat (blk_off c i + unat (blockSize c) + k) :: 32 word)"
    by (simp add: block_addr [OF ok])
  show "unat (block c pg i + blockSize c + of_nat k - pg) = blk_off c i + unat (blockSize c) + k"
    unfolding e2 using b k by (simp add: unat_of_nat del: of_nat_add of_nat_mult)
qed

lemma pads_intact_cong:
  assumes ok: "cfg_ok c" and i: "i < unat (blocksPerPage c)"
    and eq: "\<And>a. in_chunk c pg i a \<Longrightarrow> \<not> in_mod c pg i a \<Longrightarrow> m' a = m a"
  shows "pads_intact c m' (block c pg i) = pads_intact c m (block c pg i)"
proof -
  have "m' (block c pg i - 1 - of_nat k) = m (block c pg i - 1 - of_nat k) \<and>
        m' (block c pg i + blockSize c + of_nat k) = m (block c pg i + blockSize c + of_nat k)"
    if k: "k < unat (padBytes c)" for k
  proof (intro conjI eq)
    show "in_chunk c pg i (block c pg i - 1 - of_nat k)"
      using k unfolding in_chunk_def pad_addrs [OF ok i k] blk_hdr by arith
    show "\<not> in_mod c pg i (block c pg i - 1 - of_nat k)"
      using k unfolding in_mod_def pad_addrs [OF ok i k] blk_hdr by arith
    show "in_chunk c pg i (block c pg i + blockSize c + of_nat k)"
      using k unfolding in_chunk_def pad_addrs [OF ok i k] blk_hdr by arith
    show "\<not> in_mod c pg i (block c pg i + blockSize c + of_nat k)"
      using k unfolding in_mod_def pad_addrs [OF ok i k] blk_hdr by arith
  qed
  then show ?thesis
    by (simp add: pads_intact_def list_all_iff)
qed

section \<open>Writes to one block leave the rest of the pool alone\<close>

lemma Allocate_frame:
  assumes "cfg_ok c" "i < unat (blocksPerPage c)" "freeList st = block c pg i" "freeList st \<noteq> 0"
    and "\<not> in_mod c pg i a"
  shows "heap (snd (Allocate c pg' st fname line)) a = heap st a"
  using assms(5) unfolding Allocate_heap(1) [OF assms(1-4)] Let_def in_mod_def
  by auto

lemma release_frame:
  assumes "cfg_ok c" "i < unat (blocksPerPage c)" "x = block c pg i"
    and "\<not> in_mod c pg i a"
  shows "heap (fst (release c st x)) a = heap st a"
  using assms(4) blockSize_ge [of c] unfolding release_heap(1) [OF assms(1-3)] Let_def in_mod_def
  by auto

text \<open>
  Writes confined to the header and the block of one block \<open>i\<close> of page \<open>p\<close> leave the
  page list, the links and headers of all other blocks, and all pads as they were.
\<close>

lemma frame_other:
  assumes ok: "cfg_ok c" and ps: "pages_ok c ps"
    and p: "p \<in> set ps" "i < unat (blocksPerPage c)"
    and frame: "\<And>a. \<not> in_mod c p i a \<Longrightarrow> m' a = m a"
    and q: "q \<in> set ps" "j < unat (blocksPerPage c)" "block c q j \<noteq> block c p i"
    and a: "in_chunk c q j a"
  shows "m' a = m a"
proof -
  have "q \<noteq> p \<or> j \<noteq> i" using q(3) by auto
  then have "\<not> in_chunk c p i a"
    using chunk_disjoint [OF ok ps q(1,2) p _ a] by blast
  then show ?thesis using frame in_mod_chunk by blast
qed

lemma frame_pages:
  assumes ok: "cfg_ok c" and ps: "pages_ok c ps"
    and p: "p \<in> set ps" "i < unat (blocksPerPage c)"
    and frame: "\<And>a. \<not> in_mod c p i a \<Longrightarrow> m' a = m a"
    and ch: "chain m pl ps"
  shows "chain m' pl ps"
proof (rule chain_cong [OF ch])
  fix x b assume "x \<in> set ps" "b - x < 4"
  then have "\<not> in_chunk c p i b" by (intro link_not_in_chunk [OF ok ps p])
  then show "m' b = m b" using frame in_mod_chunk by blast
qed

lemma frame_chain:
  assumes ok: "cfg_ok c" and ps: "pages_ok c ps"
    and p: "p \<in> set ps" "i < unat (blocksPerPage c)"
    and frame: "\<And>a. \<not> in_mod c p i a \<Longrightarrow> m' a = m a"
    and ch: "chain m fl ys" and ys: "\<forall>y\<in>set ys. is_block c ps y" "block c p i \<notin> set ys"
  shows "chain m' fl ys"
proof (rule chain_cong [OF ch])
  fix y b assume y: "y \<in> set ys" and b: "b - y < 4"
  obtain q j where q: "q \<in> set ps" "j < unat (blocksPerPage c)" "y = block c q j"
    using ys(1) y by (auto simp add: is_block_def)
  have ne: "block c q j \<noteq> block c p i" using ys(2) y q(3) by auto
  have ic: "in_chunk c q j b"
    using b unfolding q(3) by (intro in_mod_chunk link_in_mod [OF ok q(2)])
  show "m' b = m b"
    by (rule frame_other [where m' = m' and m = m, OF ok ps p _ q(1,2) ne ic]) (rule frame)
qed

lemma frame_header:
  assumes ok: "cfg_ok c" and ps: "pages_ok c ps"
    and p: "p \<in> set ps" "i < unat (blocksPerPage c)"
    and frame: "\<And>a. \<not> in_mod c p i a \<Longrightarrow> m' a = m a"
    and y: "is_block c ps y" "y \<noteq> block c p i"
  shows "m' (y - padBytes c - headerSize) = m (y - padBytes c - headerSize)"
proof -
  obtain q j where q: "q \<in> set ps" "j < unat (blocksPerPage c)" "y = block c q j"
    using y(1) by (auto simp add: is_block_def)
  have ne: "block c q j \<noteq> block c p i" using y(2) q(3) by auto
  have ic: "in_chunk c q j (y - padBytes c - headerSize)"
    unfolding q(3) by (intro in_mod_chunk hdr_in_mod [OF ok q(2)])
  show ?thesis
    by (rule frame_other [where m' = m' and m = m, OF ok ps p _ q(1,2) ne ic]) (rule frame)
qed

lemma frame_pads:
  assumes ok: "cfg_ok c" and ps: "pages_ok c ps"
    and p: "p \<in> set ps" "i < unat (blocksPerPage c)"
    and frame: "\<And>a. \<not> in_mod c p i a \<Longrightarrow> m' a = m a"
    and pads: "pads_ok c m ps"
  shows "pads_ok c m' ps"
  unfolding pads_ok_def
proof (intro ballI allI impI)
  fix q j assume q: "q \<in> set ps" "j < unat (blocksPerPage c)"
  have "pads_intact c m' (block c q j) = pads_intact c m (block c q j)"
  proof (rule pads_intact_cong [OF ok q(2)])
    fix a assume a: "in_chunk c q j a" "\<not> in_mod c q j a"
    show "m' a = m a"
    proof (cases "block c q j = block c p i")
      case True
      have "\<not> in_mod c p i a"
      proof
        assume "in_mod c p i a"
        then have "in_chunk c p i a" by (rule in_mod_chunk)
        then have "q = p \<and> j = i"
          using chunk_disjoint [OF ok ps p q _ ] a(1) by blast
        then show False using a(2) \<open>in_mod c p i a\<close> by simp
      qed
      then show ?thesis by (rule frame)
    next
      case False
      show ?thesis
        by (rule frame_other [where m' = m' and m = m, OF ok ps p _ q False a(1)]) (rule frame)
    qed
  qed
  then show "pads_intact c m' (block c q j)"
    using pads q by (simp add: pads_ok_def)
qed

section \<open>Allocate and Free keep the invariant\<close>

lemma Allocate_hit_inv:
  assumes ok: "cfg_ok c" and inv: "pool_inv c st ps (x # xs)" and pads: "pads_ok c (heap st) ps"
  shows "fst (Allocate c pg' st fname line) = x"
    and "pool_inv c (snd (Allocate c pg' st fname line)) ps xs"
    and "pads_ok c (heap (snd (Allocate c pg' st fname line))) ps"
    and "heap (snd (Allocate c pg' st fname line)) (x - padBytes c - headerSize) = 1"
proof -
  let ?st' = "snd (Allocate c pg' st fname line)"
  have ch: "chain (heap st) (pageList st) ps" and ps: "pages_ok c ps"
    and fl: "freeList st = x" "x \<noteq> 0" and tl: "chain (heap st) (read32 (heap st) x) xs"
    and dx: "x \<notin> set xs" "distinct xs"
    and bl: "is_block c ps x" "\<forall>y\<in>set xs. is_block c ps y"
    and hd: "\<forall>y\<in>set xs. heap st (y - padBytes c - headerSize) = 0"
    using inv by (auto simp add: pool_inv_def)
  obtain p i where p: "p \<in> set ps" "i < unat (blocksPerPage c)" and x: "x = block c p i"
    using bl(1) by (auto simp add: is_block_def)
  have flb: "freeList st = block c p i" "freeList st \<noteq> 0" using fl x by simp_all
  note A = Allocate_heap [OF ok p(2) flb, of pg' fname line]
  have frame: "\<And>a. \<not> in_mod c p i a \<Longrightarrow> heap ?st' a = heap st a"
    by (rule Allocate_frame [OF ok p(2) flb])
  show "fst (Allocate c pg' st fname line) = x" using A(2) fl by simp
  have c1: "chain (heap ?st') (pageList ?st') ps"
    unfolding A(4) by (rule frame_pages [OF ok ps p frame ch])
  have nx: "block c p i \<notin> set xs" using dx(1) x by blast
  have c2: "chain (heap ?st') (freeList ?st') xs"
    unfolding A(3) fl(1)
    by (rule frame_chain [OF ok ps p frame tl bl(2) nx])
  have c3: "heap ?st' (y - padBytes c - headerSize) = 0" if "y \<in> set xs" for y
  proof -
    have "y \<noteq> block c p i" using that dx x by auto
    then have "heap ?st' (y - padBytes c - headerSize) = heap st (y - padBytes c - headerSize)"
      using bl(2) that by (intro frame_header [OF ok ps p frame]) auto
    then show ?thesis using hd that by simp
  qed
  show "pool_inv c ?st' ps xs"
    unfolding pool_inv_def using c1 c2 c3 ps dx bl by simp
  show "pads_ok c (heap ?st') ps"
    by (rule frame_pads [OF ok ps p frame pads])
  show "heap ?st' (x - padBytes c - headerSize) = 1"
    unfolding A(1) Let_def x by (simp add: off_of_block [OF ok p(2)])
qed

lemma block_in_page:
  assumes ok: "cfg_ok c" and i: "i < unat (blocksPerPage c)"
  shows "block c p i - p < pageSize c"
proof -
  have "blk_off c i < psize c" using chunk_end [OF ok i] blockSize_ge [of c] by simp
  then show ?thesis
    by (simp add: word_less_nat_alt unat_pageSize [OF ok] off_of_block [OF ok i])
qed

lemma find_page_block:
  assumes ok: "cfg_ok c" and ps: "pages_ok c ps" and ch: "chain m pl ps"
    and p: "p \<in> set ps" "i < unat (blocksPerPage c)"
  shows "find_page m (pageSize c) (block c p i) pl = Some (Some p)"
proof (rule find_page_unique [OF ch p(1) block_in_page [OF ok p(2)]], intro ballI impI)
  fix q assume q: "q \<in> set ps" "q \<noteq> p"
  have "unat (block c p i - p) < psize c"
    using block_in_page [OF ok p(2), of p] by (simp add: word_less_nat_alt unat_pageSize [OF ok])
  then have "\<not> unat (block c p i - q) < psize c"
    using ps p(1) q by (intro pages_disjoint [of c p q]) (auto simp add: pages_ok_def)
  then show "\<not> block c p i - q < pageSize c"
    by (simp add: word_less_nat_alt unat_pageSize [OF ok])
qed

lemma block_aligned:
  assumes ok: "cfg_ok c" and i: "i < unat (blocksPerPage c)"
  shows "(block c p i - p - (leftChunkSize c - padBytes c - blockSize c)) mod interChunkSize c = 0"
proof -
  have b: "i * chunk c < 2 ^ 32" using blk_bound [OF ok i] by (simp add: blk_off_def)
  have lo: "leftChunkSize c - padBytes c - blockSize c = of_nat (first c)"
    using unat_left_offset [OF ok, symmetric] by simp
  have e: "block c p i - p - (leftChunkSize c - padBytes c - blockSize c) = of_nat (i * chunk c)"
    unfolding lo block_off [OF ok] by simp
  have "unat ((of_nat (i * chunk c) :: 32 word) mod interChunkSize c) = (i * chunk c) mod chunk c"
    using b by (simp add: unat_mod unat_interChunkSize [OF ok] unat_of_nat del: of_nat_mult)
  then have "unat ((of_nat (i * chunk c) :: 32 word) mod interChunkSize c) = 0" by simp
  then show ?thesis unfolding e by (simp only: unat_eq_0)
qed

lemma release_inv:
  assumes ok: "cfg_ok c" and inv: "pool_inv c st ps xs" and pads: "pads_ok c (heap st) ps"
    and bl: "is_block c ps x" and al: "heap st (x - padBytes c - headerSize) \<noteq> 0"
  shows "pool_inv c (fst (release c st x)) ps (x # xs)"
    and "pads_ok c (heap (fst (release c st x))) ps"
proof -
  let ?st' = "fst (release c st x)"
  have ch: "chain (heap st) (pageList st) ps" and ps: "pages_ok c ps"
    and fc: "chain (heap st) (freeList st) xs" and dx: "distinct xs"
    and bls: "\<forall>y\<in>set xs. is_block c ps y"
    and hd: "\<forall>y\<in>set xs. heap st (y - padBytes c - headerSize) = 0"
    using inv by (auto simp add: pool_inv_def)
  obtain p i where p: "p \<in> set ps" "i < unat (blocksPerPage c)" and x: "x = block c p i"
    using bl by (auto simp add: is_block_def)
  note R = release_heap [OF ok p(2) x, of st]
  have frame: "\<And>a. \<not> in_mod c p i a \<Longrightarrow> heap ?st' a = heap st a"
    by (rule release_frame [OF ok p(2) x])
  have nx: "x \<notin> set xs" using hd al by auto
  then have nx': "block c p i \<notin> set xs" using x by blast
  have x0: "x \<noteq> 0"
    using ps p(1) unfolding x by (intro block_nonzero [OF ok _ p(2)]) (simp add: pages_ok_def)
  have c1: "chain (heap ?st') (pageList ?st') ps"
    unfolding R(3) by (rule frame_pages [OF ok ps p frame ch])
  have c2: "chain (heap ?st') (freeList st) xs"
    by (rule frame_chain [OF ok ps p frame fc bls nx'])
  have b4: "blk_off c i + 3 < 2 ^ 32" using blk_bound [OF ok p(2)] blockSize_ge [of c] by simp
  have lb: "heap ?st' (x + of_nat k) = byte_of (freeList st) k" if "k < 4" for k
  proof -
    have "x + of_nat k - p = (of_nat (blk_off c i + k) :: 32 word)"
      by (simp add: x block_addr [OF ok])
    then have "unat (x + of_nat k - p) = blk_off c i + k"
      using b4 that by (simp add: unat_of_nat del: of_nat_add of_nat_mult)
    then show ?thesis unfolding R(1) Let_def using that by simp
  qed
  have c3: "read32 (heap ?st') x = freeList st"
    using lb [of 0] lb [of 1] lb [of 2] lb [of 3] by (intro read32_bytes) simp_all
  have c4: "heap ?st' (x - padBytes c - headerSize) = 0"
    unfolding R(1) Let_def by (simp add: x off_of_block [OF ok p(2)] blk_hdr)
  have c5: "heap ?st' (y - padBytes c - headerSize) = 0" if "y \<in> set xs" for y
  proof -
    have "y \<noteq> block c p i" using that nx' by auto
    then have "heap ?st' (y - padBytes c - headerSize) = heap st (y - padBytes c - headerSize)"
      using bls that by (intro frame_header [OF ok ps p frame]) auto
    then show ?thesis using hd that by simp
  qed
  show "pool_inv c ?st' ps (x # xs)"
    unfolding pool_inv_def using c1 c2 c3 c4 c5 ps dx nx bl bls x0 R(2) by simp
  show "pads_ok c (heap ?st') ps"
    by (rule frame_pads [OF ok ps p frame pads])
qed

lemma pool_inv_log: "pool_inv c (log_line ts st) ps xs = pool_inv c st ps xs"
  by (simp add: pool_inv_def log_line_def)

lemma heap_log: "heap (log_line ts st) = heap st" "stats (log_line ts st) = stats st"
  "freeList (log_line ts st) = freeList st" "pageList (log_line ts st) = pageList st"
  by (simp_all add: log_line_def)

text \<open>\<open>Free\<close> of a block of the pool: the page is found and the alignment test passes.\<close>

lemma Free_block:
  assumes ok: "cfg_ok c" and inv: "pool_inv c st ps xs" and bl: "is_block c ps x"
  shows "Free c st x fname line =
     Some (if heap st (x - padBytes c - headerSize) = 0
           then reject c st
                  [Str ''Attempt to free already freed memory from #'', Num line,
                   Str '' in file '', CStr fname, Endl]
                  FREED ''Attempt to free already freed memory.'' fname line
           else if \<not> pads_intact c (heap st) x
           then reject c st
                  [Str ''Pad bytes invalidated for object allocated at #'',
                   Num (hdr_line (heap st) (x - padBytes c - headerSize)), Str '' in file '',
                   CStr (hdr_filename (heap st) (x - padBytes c - headerSize)), Endl]
                  PAD ''Pad bytes invalidated for object.'' fname line
           else release c st x)"
proof -
  have ch: "chain (heap st) (pageList st) ps" and ps: "pages_ok c ps"
    using inv by (auto simp add: pool_inv_def)
  obtain p i where p: "p \<in> set ps" "i < unat (blocksPerPage c)" and x: "x = block c p i"
    using bl by (auto simp add: is_block_def)
  have f: "find_page (heap st) (pageSize c) x (pageList st) = Some (Some p)"
    unfolding x by (rule find_page_block [OF ok ps ch p])
  have a: "(x - p - (leftChunkSize c - padBytes c - blockSize c)) mod interChunkSize c = 0"
    unfolding x by (rule block_aligned [OF ok p(2)])
  show ?thesis
    unfolding Free_def f check_block_def Let_def
    by (simp add: a GetDebugHeader_def hdr_allocated_def)
qed

lemma Free_block_inv:
  assumes ok: "cfg_ok c" and inv: "pool_inv c st ps xs" and pads: "pads_ok c (heap st) ps"
    and bl: "is_block c ps x" and fr: "Free c st x fname line = Some (st', oc)"
  shows "\<exists>xs'. pool_inv c st' ps xs' \<and> pads_ok c (heap st') ps"
proof (cases "heap st (x - padBytes c - headerSize) \<noteq> 0 \<and> pads_intact c (heap st) x")
  case True
  then have "st' = fst (release c st x)"
    using fr unfolding Free_block [OF ok inv bl] by auto
  then show ?thesis
    using release_inv [OF ok inv pads bl] True by blast
next
  case False
  then obtain ts where "st' = log_line ts st"
    using fr unfolding Free_block [OF ok inv bl] by (auto simp add: reject_def split: if_splits)
  then show ?thesis using inv pads by (auto simp add: pool_inv_log heap_log)
qed

section \<open>CreatePage keeps the invariant\<close>

lemma apart_sym: "apart c p q \<Longrightarrow> apart c q p"
  by (auto simp add: apart_def)

lemma block_in_chunk:
  assumes ok: "cfg_ok c" and i: "i < unat (blocksPerPage c)"
  shows "in_chunk c p i (block c p i)"
  by (rule in_mod_chunk [OF link_in_mod [OF ok i]]) simp

lemma block_inj:
  assumes ok: "cfg_ok c" and ps: "pages_ok c ps"
    and p: "p \<in> set ps" "i < unat (blocksPerPage c)"
    and q: "q \<in> set ps" "j < unat (blocksPerPage c)"
    and e: "block c p i = block c q j"
  shows "p = q \<and> i = j"
proof (rule ccontr)
  assume "\<not> (p = q \<and> i = j)"
  then have "p \<noteq> q \<or> i \<noteq> j" by simp
  from chunk_disjoint [OF ok ps p q this block_in_chunk [OF ok p(2)]]
  show False using block_in_chunk [OF ok q(2), of q] e by simp
qed

lemma is_block_mono: "is_block c ps x \<Longrightarrow> is_block c (pg # ps) x"
  by (auto simp add: is_block_def)

lemma pads_fresh:
  assumes ok: "cfg_ok c" and i: "i < unat (blocksPerPage c)"
  shows "pads_intact c (heap (CreatePage c pg st)) (block c pg i)"
  unfolding pads_intact_def list_all_iff
proof (intro ballI conjI)
  fix k assume "k \<in> set [0..<unat (padBytes c)]"
  then have k: "k < unat (padBytes c)" by simp
  have e: "block c pg i - 1 - of_nat k = block c pg i - padBytes c + of_nat (unat (padBytes c) - 1 - k)"
  proof -
    have "(of_nat (unat (padBytes c) - 1 - k) :: 32 word) = of_nat (unat (padBytes c)) - of_nat (1 + k)"
      using k by (simp only: diff_diff_left of_nat_diff [of "1 + k" "unat (padBytes c)"] Suc_leI)
    then show ?thesis by simp
  qed
  show "heap (CreatePage c pg st) (block c pg i - 1 - of_nat k) = PAD"
    unfolding e using k by (intro left_pad_bytes [OF ok i]) simp
  show "heap (CreatePage c pg st) (block c pg i + blockSize c + of_nat k) = PAD"
    by (rule right_pad_bytes [OF ok i k])
qed

lemma CreatePage_inv:
  assumes ok: "cfg_ok c" and inv: "pool_inv c st ps xs" and pads: "pads_ok c (heap st) ps"
    and pg: "page_ok c pg" and ap: "\<forall>q\<in>set ps. apart c pg q"
  shows "pool_inv c (CreatePage c pg st) (pg # ps)
           (rev (map (block c pg) [0 ..< unat (blocksPerPage c)]) @ xs)"
    and "pads_ok c (heap (CreatePage c pg st)) (pg # ps)"
proof -
  let ?st' = "CreatePage c pg st" and ?n = "unat (blocksPerPage c)"
  let ?m' = "heap ?st'"
  have ch: "chain (heap st) (pageList st) ps" and ps: "pages_ok c ps"
    and fc: "chain (heap st) (freeList st) xs" and dx: "distinct xs"
    and bls: "\<forall>y\<in>set xs. is_block c ps y"
    and hd: "\<forall>y\<in>set xs. heap st (y - padBytes c - headerSize) = 0"
    using inv by (auto simp add: pool_inv_def)
  have n: "0 < ?n" using ok by (simp add: cfg_ok_def)
  have ps': "pages_ok c (pg # ps)"
    using ps pg ap apart_sym unfolding pages_ok_def by auto
  have p4: "4 < psize c" using first_bound [OF ok] by (simp add: first_def)
  have frame: "?m' a = heap st a" if "q \<in> set ps" "unat (a - q) < psize c" for a q
  proof -
    have "\<not> unat (a - pg) < psize c"
      using ps pg ap that by (intro pages_disjoint [of c q pg]) (auto simp add: pages_ok_def apart_sym)
    then show ?thesis by (simp add: CreatePage_heap(1) [OF ok])
  qed
  have frame_chunk: "?m' a = heap st a" if "q \<in> set ps" "j < ?n" "in_chunk c q j a" for a q j
    using that by (intro frame [of q] in_chunk_page [OF ok]) auto
  have c_pages: "chain ?m' (pageList st) ps"
  proof (rule chain_cong [OF ch])
    fix q b assume "q \<in> set ps" "b - q < (4 :: 32 word)"
    then show "?m' b = heap st b"
      using p4 by (intro frame [of q]) (simp_all add: word_less_nat_alt)
  qed
  have pg0: "pg \<noteq> 0" using pg by (simp add: page_ok_def)
  have c1: "chain ?m' (pageList ?st') (pg # ps)"
    using c_pages pg0 by (simp add: CreatePage_heap(3) [OF ok] page_link [OF ok])
  have c_old: "chain ?m' (freeList st) xs"
  proof (rule chain_cong [OF fc])
    fix y b assume y: "y \<in> set xs" and b: "b - y < (4 :: 32 word)"
    obtain q j where q: "q \<in> set ps" "j < ?n" "y = block c q j"
      using bls y by (auto simp add: is_block_def)
    have "in_chunk c q j b"
      using b unfolding q(3) by (intro in_mod_chunk link_in_mod [OF ok q(2)])
    then show "?m' b = heap st b" by (rule frame_chunk [OF q(1,2)])
  qed
  have c_new: "k < ?n \<Longrightarrow> chain ?m' (block c pg k) (rev (map (block c pg) [0 ..< Suc k]) @ xs)" for k
  proof (induction k)
    case 0
    then show ?case
      using c_old block_nonzero [OF ok pg, of 0] block_link [OF ok, of 0 pg st] by simp
  next
    case (Suc k)
    then show ?case
      using block_nonzero [OF ok pg, of "Suc k"] block_link [OF ok, of "Suc k" pg st] by simp
  qed
  have "chain ?m' (block c pg (?n - 1)) (rev (map (block c pg) [0 ..< Suc (?n - 1)]) @ xs)"
    using n by (intro c_new) simp
  then have c2: "chain ?m' (freeList ?st') (rev (map (block c pg) [0 ..< ?n]) @ xs)"
    using n by (simp add: CreatePage_heap(2) [OF ok] block_off [OF ok])
  have inj: "inj_on (block c pg) {0 ..< ?n}"
  proof (rule inj_onI)
    fix i j assume "i \<in> {0 ..< ?n}" "j \<in> {0 ..< ?n}" "block c pg i = block c pg j"
    then show "i = j"
      using block_inj [OF ok ps', of pg i pg j] by simp
  qed
  have new_old: "block c pg i \<notin> set xs" if "i < ?n" for i
  proof
    assume "block c pg i \<in> set xs"
    then obtain q j where q: "q \<in> set ps" "j < ?n" "block c pg i = block c q j"
      using bls by (auto simp add: is_block_def)
    have "pg = q"
      using block_inj [OF ok ps', of pg i q j] that q by simp
    moreover have "\<not> apart c pg pg"
      using p4 by (simp add: apart_def)
    ultimately show False using ap q(1) by blast
  qed
  have c3: "distinct (rev (map (block c pg) [0 ..< ?n]) @ xs)"
    using dx inj new_old by (auto simp add: distinct_map)
  have c4: "is_block c (pg # ps) y \<and> ?m' (y - padBytes c - headerSize) = 0"
    if yin: "y \<in> set (rev (map (block c pg) [0 ..< ?n]) @ xs)" for y
  proof (cases "y \<in> set xs")
    case True
    obtain q j where q: "q \<in> set ps" "j < ?n" "y = block c q j"
      using bls True by (auto simp add: is_block_def)
    have "in_chunk c q j (y - padBytes c - headerSize)"
      unfolding q(3) by (intro in_mod_chunk hdr_in_mod [OF ok q(2)])
    then have "?m' (y - padBytes c - headerSize) = heap st (y - padBytes c - headerSize)"
      by (rule frame_chunk [OF q(1,2)])
    then show ?thesis using hd bls True by (simp add: is_block_mono)
  next
    case False
    then obtain i where i: "i < ?n" "y = block c pg i" using yin by auto
    have "?m' (block c pg i - padBytes c - headerSize + of_nat 0) = 0"
      by (rule header_bytes [OF ok i(1)]) simp
    then show ?thesis using i by (auto simp add: is_block_def)
  qed
  show "pool_inv c ?st' (pg # ps) (rev (map (block c pg) [0 ..< ?n]) @ xs)"
    unfolding pool_inv_def using c1 ps' c2 c3 c4 by blast
  show "pads_ok c ?m' (pg # ps)"
    unfolding pads_ok_def
  proof (intro ballI allI impI)
    fix q j assume q: "q \<in> set (pg # ps)" "j < ?n"
    show "pads_intact c ?m' (block c q j)"
    proof (cases "q = pg")
      case True
      then show ?thesis using pads_fresh [OF ok q(2)] by simp
    next
      case False
      then have q': "q \<in> set ps" using q(1) by simp
      have "pads_intact c ?m' (block c q j) = pads_intact c (heap st) (block c q j)"
        by (rule pads_intact_cong [OF ok q(2)]) (rule frame_chunk [OF q' q(2)])
      then show ?thesis using pads q' q(2) by (simp add: pads_ok_def)
    qed
  qed
qed

section \<open>Pools used as intended\<close>

text \<open>
  \<open>good c st ps\<close>: the state \<open>st\<close> with pages \<open>ps\<close> is reached from a fresh pool by
  calls of \<open>Allocate\<close>, where each page that \<open>new\<close> hands out is a proper page that
  overlaps none of the pool's pages, and by calls of \<open>Free\<close> on addresses of blocks of
  the pool (allocated or not).
\<close>

inductive good :: "config \<Rightarrow> pool \<Rightarrow> addr list \<Rightarrow> bool" for c :: config where
  good_new: "good c (new_pool m lg) []"
| good_Allocate:
    "good c st ps \<Longrightarrow> freeList st \<noteq> 0 \<Longrightarrow> good c (snd (Allocate c pg st fname line)) ps"
| good_Allocate_page:
    "good c st ps \<Longrightarrow> freeList st = 0 \<Longrightarrow> page_ok c pg \<Longrightarrow> \<forall>q\<in>set ps. apart c pg q \<Longrightarrow>
     good c (snd (Allocate c pg st fname line)) (pg # ps)"
| good_Free:
    "good c st ps \<Longrightarrow> is_block c ps del \<Longrightarrow> Free c st del fname line = Some (st', oc) \<Longrightarrow>
     good c st' ps"

lemma Allocate_miss:
  "freeList st = 0 \<Longrightarrow> freeList (CreatePage c pg st) \<noteq> 0 \<Longrightarrow>
   Allocate c pg st fname line = Allocate c pg (CreatePage c pg st) fname line"
  by (simp add: Allocate_def)

lemma rev_blocks:
  "0 < n \<Longrightarrow> rev (map f [0 ..< n]) = f (n - 1) # rev (map f [0 ..< n - 1])"
  by (cases n) simp_all

lemma Allocate_miss_inv:
  assumes ok: "cfg_ok c" and inv: "pool_inv c st ps xs" and pads: "pads_ok c (heap st) ps"
    and fl: "freeList st = 0" and pg: "page_ok c pg" and ap: "\<forall>q\<in>set ps. apart c pg q"
  shows "fst (Allocate c pg st fname line) = block c pg (unat (blocksPerPage c) - 1)"
    and "pool_inv c (snd (Allocate c pg st fname line)) (pg # ps)
           (rev (map (block c pg) [0 ..< unat (blocksPerPage c) - 1]))"
    and "pads_ok c (heap (snd (Allocate c pg st fname line))) (pg # ps)"
    and "heap (snd (Allocate c pg st fname line))
           (block c pg (unat (blocksPerPage c) - 1) - padBytes c - headerSize) = 1"
proof -
  let ?n = "unat (blocksPerPage c)"
  let ?st1 = "CreatePage c pg st"
  have n: "0 < ?n" using ok by (simp add: cfg_ok_def)
  have "chain (heap st) 0 xs" using inv fl by (simp add: pool_inv_def)
  then have xs: "xs = []" by (cases xs) simp_all
  have f1: "freeList ?st1 = block c pg (?n - 1)"
    by (simp add: CreatePage_heap(2) [OF ok] block_off [OF ok])
  have nz: "freeList ?st1 \<noteq> 0"
    unfolding f1 using n by (intro block_nonzero [OF ok pg]) simp
  have al: "Allocate c pg st fname line = Allocate c pg ?st1 fname line"
    by (rule Allocate_miss [OF fl nz])
  have inv1: "pool_inv c ?st1 (pg # ps) (block c pg (?n - 1) # rev (map (block c pg) [0 ..< ?n - 1]))"
    using CreatePage_inv(1) [OF ok inv pads pg ap] rev_blocks [OF n, of "block c pg"] xs by simp
  have pads1: "pads_ok c (heap ?st1) (pg # ps)"
    by (rule CreatePage_inv(2) [OF ok inv pads pg ap])
  note H = Allocate_hit_inv [OF ok inv1 pads1, of pg fname line]
  show "fst (Allocate c pg st fname line) = block c pg (?n - 1)" unfolding al by (rule H(1))
  show "pool_inv c (snd (Allocate c pg st fname line)) (pg # ps) (rev (map (block c pg) [0 ..< ?n - 1]))"
    unfolding al by (rule H(2))
  show "pads_ok c (heap (snd (Allocate c pg st fname line))) (pg # ps)"
    unfolding al by (rule H(3))
  show "heap (snd (Allocate c pg st fname line)) (block c pg (?n - 1) - padBytes c - headerSize) = 1"
    unfolding al by (rule H(4))
qed

lemma pool_inv_new: "pool_inv c (new_pool m lg) [] []"
  by (simp add: pool_inv_def new_pool_def pages_ok_def)

lemma chain_nonempty: "chain m p xs \<Longrightarrow> p \<noteq> 0 \<Longrightarrow> \<exists>x ys. xs = x # ys"
  by (cases xs) simp_all

lemma good_inv:
  assumes ok: "cfg_ok c"
  shows "good c st ps \<Longrightarrow> \<exists>xs. pool_inv c st ps xs \<and> pads_ok c (heap st) ps"
proof (induction rule: good.induct)
  case (good_new m lg)
  then show ?case using pool_inv_new by (auto simp add: pads_ok_def)
next
  case (good_Allocate st ps pg fname line)
  then obtain xs where inv: "pool_inv c st ps xs" and pads: "pads_ok c (heap st) ps" by blast
  have "chain (heap st) (freeList st) xs" using inv by (simp add: pool_inv_def)
  then obtain x ys where xs: "xs = x # ys"
    using chain_nonempty good_Allocate.hyps(2) by blast
  show ?case
    using Allocate_hit_inv(2,3) [OF ok inv [unfolded xs] pads] by blast
next
  case (good_Allocate_page st ps pg fname line)
  then obtain xs where inv: "pool_inv c st ps xs" and pads: "pads_ok c (heap st) ps" by blast
  show ?case
    using Allocate_miss_inv(2,3) [OF ok inv pads good_Allocate_page.hyps(2,3,4)] by blast
next
  case (good_Free st ps del fname line st' oc)
  then obtain xs where inv: "pool_inv c st ps xs" and pads: "pads_ok c (heap st) ps" by blast
  show ?case
    by (rule Free_block_inv [OF ok inv pads good_Free.hyps(2,3)])
qed

section \<open>Allocate, then Free\<close>

lemma stats_Allocate:
  "stats (snd (Allocate c pg st fname line)) =
     (let s = stats (if freeList st = 0 then CreatePage c pg st else st) in
      s\<lparr>allocations := allocations s + 1,
        blocksInUse := blocksInUse s + 1,
        mostBlocksInUse := (if blocksInUse s + 1 > mostBlocksInUse s then blocksInUse s + 1
                            else mostBlocksInUse s),
        freeBlocks := freeBlocks s - 1\<rparr>)"
  by (simp add: Allocate_def Let_def split: prod.splits)

lemma stats_release:
  "stats (fst (release c st x)) =
     (stats st)\<lparr>deallocations := deallocations (stats st) + 1,
                blocksInUse := blocksInUse (stats st) - 1,
                freeBlocks := freeBlocks (stats st) + 1\<rparr>"
  by (simp add: release_def Let_def split: prod.splits)

text \<open>An allocation followed by the release of its block.\<close>

lemma round_trip:
  assumes ok: "cfg_ok c" and g: "good c st ps"
    and fresh: "freeList st = 0 \<longrightarrow> page_ok c pg \<and> (\<forall>q\<in>set ps. apart c pg q)"
  shows "Free c (snd (Allocate c pg st fname line)) (fst (Allocate c pg st fname line)) fname' line' =
           Some (release c (snd (Allocate c pg st fname line)) (fst (Allocate c pg st fname line)))"
    and "fst (Allocate c pg st fname line) =
           (if freeList st = 0 then block c pg (unat (blocksPerPage c) - 1) else freeList st)"
proof -
  let ?a = "fst (Allocate c pg st fname line)" and ?st1 = "snd (Allocate c pg st fname line)"
  obtain xs where inv: "pool_inv c st ps xs" and pads: "pads_ok c (heap st) ps"
    using good_inv [OF ok g] by blast
  have "\<exists>ps' xs'. pool_inv c ?st1 ps' xs' \<and> pads_ok c (heap ?st1) ps' \<and> is_block c ps' ?a \<and>
          heap ?st1 (?a - padBytes c - headerSize) = 1 \<and>
          ?a = (if freeList st = 0 then block c pg (unat (blocksPerPage c) - 1) else freeList st)"
  proof (cases "freeList st = 0")
    case True
    then have pg: "page_ok c pg" and ap: "\<forall>q\<in>set ps. apart c pg q" using fresh by auto
    note M = Allocate_miss_inv [OF ok inv pads True pg ap, of fname line]
    have n: "0 < unat (blocksPerPage c)" using ok by (simp add: cfg_ok_def)
    have "unat (blocksPerPage c) - 1 < unat (blocksPerPage c)" using n by simp
    then have "is_block c (pg # ps) ?a"
      unfolding M(1) is_block_def by (intro bexI [of _ pg] exI [of _ "unat (blocksPerPage c) - 1"]) simp_all
    then show ?thesis using M True by auto
  next
    case False
    have "chain (heap st) (freeList st) xs" using inv by (simp add: pool_inv_def)
    then obtain x ys where xs: "xs = x # ys" using chain_nonempty False by blast
    note H = Allocate_hit_inv [OF ok inv [unfolded xs] pads, of pg fname line]
    have x: "freeList st = x" "is_block c ps x" using inv xs by (simp_all add: pool_inv_def)
    show ?thesis using H x False by auto
  qed
  then obtain ps' xs' where inv1: "pool_inv c ?st1 ps' xs'" and pads1: "pads_ok c (heap ?st1) ps'"
    and bl: "is_block c ps' ?a" and hd: "heap ?st1 (?a - padBytes c - headerSize) = 1"
    and a: "?a = (if freeList st = 0 then block c pg (unat (blocksPerPage c) - 1) else freeList st)"
    by blast
  have "pads_intact c (heap ?st1) ?a"
    using pads1 bl by (auto simp add: pads_ok_def is_block_def)
  then show "Free c ?st1 ?a fname' line' = Some (release c ?st1 ?a)"
    unfolding Free_block [OF ok inv1 bl] using hd by simp
  show "?a = (if freeList st = 0 then block c pg (unat (blocksPerPage c) - 1) else freeList st)"
    by (rule a)
qed

text \<open>
  Claim C2 says that the round trip restores \<open>freeBlocks\<close>.  On the fresh example pool
  the round trip returns \<open>0\<close> and leaves \<open>freeBlocks = 2\<close> where it was \<open>0\<close>: the
  allocation had to create a page, and the page stays.
\<close>

theorem C2_freeBlocks_counterexample:
  "\<exists>st2. Free cfg2 (snd (Allocate cfg2 0x1000 pool0 7 9)) (fst (Allocate cfg2 0x1000 pool0 7 9)) 7 9 =
           Some (st2, Returned 0) \<and>
         freeBlocks (stats st2) = 2 \<and> freeBlocks (stats pool0) = 0"
proof -
  have g: "good cfg2 pool0 []" unfolding pool0_def by (rule good_new)
  have pg: "page_ok cfg2 0x1000"
    using unat_pageSize [OF cfg_ok_cfg2] by (simp add: page_ok_def cfg2_vals)
  have "Free cfg2 (snd (Allocate cfg2 0x1000 pool0 7 9)) (fst (Allocate cfg2 0x1000 pool0 7 9)) 7 9 =
      Some (release cfg2 (snd (Allocate cfg2 0x1000 pool0 7 9)) (fst (Allocate cfg2 0x1000 pool0 7 9)))"
    using pg by (intro round_trip(1) [OF cfg_ok_cfg2 g]) simp
  then have "Free cfg2 (snd (Allocate cfg2 0x1000 pool0 7 9)) (fst (Allocate cfg2 0x1000 pool0 7 9)) 7 9 =
      Some (fst (release cfg2 (snd (Allocate cfg2 0x1000 pool0 7 9)) (fst (Allocate cfg2 0x1000 pool0 7 9))),
            Returned 0)"
    by (simp add: release_def Let_def split: prod.splits)
  moreover have "freeBlocks (stats (fst (release cfg2 (snd (Allocate cfg2 0x1000 pool0 7 9))
       (fst (Allocate cfg2 0x1000 pool0 7 9))))) = 2"
    by (simp add: stats_release stats_Allocate stats_CreatePage pool0_def new_pool_def no_stats_def cfg2_vals)
  moreover have "freeBlocks (stats pool0) = 0"
    by (simp add: pool0_def new_pool_def no_stats_def)
  ultimately show ?thesis by blast
qed

text \<open>
  Claim C2, amended.  In a pool used as intended (the state is reached by \<open>Allocate\<close>
  calls and by \<open>Free\<close> calls on blocks of the pool, and a page that \<open>new\<close> hands out
  overlaps no page of the pool), \<open>Allocate\<close> followed by \<open>Free\<close> of the address it
  returned returns \<open>0\<close>, restores \<open>blocksInUse\<close>, and adds one to \<open>allocations\<close> and
  to \<open>deallocations\<close>.  \<open>freeBlocks\<close> is restored when the free list was not empty; when
  it was empty, \<open>Allocate\<close> creates a page, the address returned is the last block of
  that page, and \<open>freeBlocks\<close> ends \<open>blocksPerPage\<close> higher.
\<close>

theorem C2_round_trip:
  assumes ok: "cfg_ok c" and g: "good c st ps"
    and fresh: "freeList st = 0 \<longrightarrow> page_ok c pg \<and> (\<forall>q\<in>set ps. apart c pg q)"
  shows "\<exists>st2. Free c (snd (Allocate c pg st fname line)) (fst (Allocate c pg st fname line)) fname' line' =
                 Some (st2, Returned 0) \<and>
           blocksInUse (stats st2) = blocksInUse (stats st) \<and>
           freeBlocks (stats st2) =
             (if freeList st = 0 then freeBlocks (stats st) + blocksPerPage c
              else freeBlocks (stats st)) \<and>
           allocations (stats st2) = allocations (stats st) + 1 \<and>
           deallocations (stats st2) = deallocations (stats st) + 1 \<and>
           fst (Allocate c pg st fname line) =
             (if freeList st = 0 then block c pg (unat (blocksPerPage c) - 1) else freeList st)"
proof -
  let ?a = "fst (Allocate c pg st fname line)" and ?st1 = "snd (Allocate c pg st fname line)"
  have "Free c ?st1 ?a fname' line' = Some (fst (release c ?st1 ?a), Returned 0)"
    unfolding round_trip(1) [OF ok g fresh] by (simp add: release_def Let_def split: prod.splits)
  moreover have "blocksInUse (stats (fst (release c ?st1 ?a))) = blocksInUse (stats st)"
    "freeBlocks (stats (fst (release c ?st1 ?a))) =
       (if freeList st = 0 then freeBlocks (stats st) + blocksPerPage c else freeBlocks (stats st))"
    "allocations (stats (fst (release c ?st1 ?a))) = allocations (stats st) + 1"
    "deallocations (stats (fst (release c ?st1 ?a))) = deallocations (stats st) + 1"
    by (simp_all add: stats_release stats_Allocate stats_CreatePage Let_def)
  ultimately show ?thesis using round_trip(2) [OF ok g fresh] by blast
qed

theorem C2_round_trip_witness:
  "cfg_ok (default_settings 8 False) \<and>
   good (default_settings 8 False) (new_pool (\<lambda>a. 0) None) [] \<and>
   page_ok (default_settings 8 False) 0x10000 \<and>
   (\<exists>st2. Free (default_settings 8 False)
            (snd (Allocate (default_settings 8 False) 0x10000 (new_pool (\<lambda>a. 0) None) 7 9))
            (fst (Allocate (default_settings 8 False) 0x10000 (new_pool (\<lambda>a. 0) None) 7 9)) 7 9 =
              Some (st2, Returned 0) \<and>
          blocksInUse (stats st2) = 0 \<and> freeBlocks (stats st2) = 1024 \<and>
          allocations (stats st2) = 1 \<and> deallocations (stats st2) = 1) \<and>
   fst (Allocate (default_settings 8 False) 0x10000 (new_pool (\<lambda>a. 0) None) 7 9) = 0x15FFC \<and>
   (0x15FFC :: 32 word) mod 4 = 0"
proof -
  let ?c = "default_settings 8 False" and ?st = "new_pool (\<lambda>a. 0) None"
  have v: "blockSize ?c = 8" "leftAlign ?c = 2" "interAlign ?c = 0" "padBytes ?c = 2"
    "blocksPerPage ?c = 1024" "interChunkSize ?c = 24"
    by (simp_all add: cfg_defs default_settings_def)
  have ok: "cfg_ok ?c" by (simp add: cfg_ok_def chunk_def v)
  have g: "good ?c ?st []" by (rule good_new)
  have ps: "psize ?c = 24582" by (simp add: psize_def chunk_def v)
  have pg: "page_ok ?c 0x10000" by (simp add: page_ok_def ps)
  have fresh: "freeList ?st = 0 \<longrightarrow> page_ok ?c 0x10000 \<and> (\<forall>q\<in>set []. apart ?c 0x10000 q)"
    using pg by simp
  have b: "block ?c 0x10000 1023 = 0x15FFC"
    by (simp add: block_def v ptr_size_def headerSize_def)
  show ?thesis
    using C2_round_trip [OF ok g fresh, of 7 9 7 9] ok g pg
    by (auto simp add: b new_pool_def no_stats_def v)
qed

section \<open>Free that fails\<close>

lemma reject_frame:
  "heap (fst (reject c st ts code msg fname line)) = heap st"
  "freeList (fst (reject c st ts code msg fname line)) = freeList st"
  "pageList (fst (reject c st ts code msg fname line)) = pageList st"
  "snd (reject c st ts code msg fname line) = (if exceptions c then Raised msg fname line else Returned code)"
  by (simp_all add: reject_def log_line_def)

lemma check_block_failed:
  assumes "snd (check_block c st pg del fname line) \<noteq> Returned 0"
  shows "stats (fst (check_block c st pg del fname line)) = stats st \<and>
         freeList (fst (check_block c st pg del fname line)) = freeList st \<and>
         pageList (fst (check_block c st pg del fname line)) = pageList st \<and>
         heap (fst (check_block c st pg del fname line)) = heap st"
  using assms unfolding check_block_def Let_def
  by (auto simp add: reject_frame stats_reject release_def Let_def split: if_splits prod.splits)

lemma Free_failed:
  assumes "Free c st del fname line = Some (st', oc)" "oc \<noteq> Returned 0"
  shows "stats st' = stats st \<and> freeList st' = freeList st \<and> pageList st' = pageList st \<and>
         heap st' = heap st"
proof (cases "find_page (heap st) (pageSize c) del (pageList st)")
  case None
  then show ?thesis using assms by (simp add: Free_def)
next
  case (Some r)
  show ?thesis
  proof (cases r)
    case None
    then have "oc = Returned 0"
      using assms(1) Some by (auto simp add: Free_def release_def Let_def split: prod.splits)
    then show ?thesis using assms(2) by simp
  next
    case (Some pg)
    then have e: "check_block c st pg del fname line = (st', oc)"
      using assms(1) \<open>find_page (heap st) (pageSize c) del (pageList st) = Some r\<close>
      by (simp add: Free_def)
    then show ?thesis using check_block_failed [of c st pg del fname line] assms(2) by simp
  qed
qed

lemma double_free:
  assumes ok: "cfg_ok c" and g: "good c st ps" and bl: "is_block c ps del"
    and fr: "Free c st del fname line = Some (st', Returned 0)"
  shows "Free c st' del fname' line' =
     Some (log_line [Str ''Attempt to free already freed memory from #'', Num line',
                     Str '' in file '', CStr fname', Endl] st',
           if exceptions c then Raised ''Attempt to free already freed memory.'' fname' line'
           else Returned 0xBB)"
proof -
  obtain xs where inv: "pool_inv c st ps xs" and pads: "pads_ok c (heap st) ps"
    using good_inv [OF ok g] by blast
  have al: "heap st (del - padBytes c - headerSize) \<noteq> 0" and st': "st' = fst (release c st del)"
    using fr unfolding Free_block [OF ok inv bl]
    by (auto simp add: reject_def FREED_def PAD_def split: if_splits)
  have inv': "pool_inv c st' ps (del # xs)"
    unfolding st' by (rule release_inv(1) [OF ok inv pads bl al])
  then have z: "heap st' (del - padBytes c - headerSize) = 0"
    by (simp add: pool_inv_def)
  show ?thesis
    unfolding Free_block [OF ok inv' bl] using z by (simp add: reject_def FREED_def)
qed

text \<open>
  Claim C4.  When \<open>Free\<close> does not return \<open>0\<close> (it returns an error code, or throws in a
  build with exceptions), the statistics, the free list, the page list and every byte of
  memory (block contents and headers) are as before the call.  And when \<open>Free\<close> of a
  block of a pool used as intended has returned \<open>0\<close>, a second \<open>Free\<close> of the same
  address returns \<open>FREED\<close> (\<open>0xBB\<close>; with exceptions it throws the double-free error) and
  changes none of these either, so \<open>blocksInUse\<close> is not decremented again.
\<close>

theorem C4_failed_Free_changes_nothing:
  assumes "Free c st del fname line = Some (st', oc)"
  shows "(oc \<noteq> Returned 0 \<longrightarrow>
            stats st' = stats st \<and> freeList st' = freeList st \<and>
            pageList st' = pageList st \<and> heap st' = heap st) \<and>
         (oc = Returned 0 \<and> cfg_ok c \<and> good c st ps \<and> is_block c ps del \<longrightarrow>
            (\<exists>st''. Free c st' del fname' line' =
                      Some (st'', if exceptions c
                                  then Raised ''Attempt to free already freed memory.'' fname' line'
                                  else Returned 0xBB) \<and>
                    stats st'' = stats st' \<and> freeList st'' = freeList st' \<and>
                    pageList st'' = pageList st' \<and> heap st'' = heap st'))"
proof (rule conjI)
  show "oc \<noteq> Returned 0 \<longrightarrow>
            stats st' = stats st \<and> freeList st' = freeList st \<and>
            pageList st' = pageList st \<and> heap st' = heap st"
    using Free_failed [OF assms] by blast
next
  show "oc = Returned 0 \<and> cfg_ok c \<and> good c st ps \<and> is_block c ps del \<longrightarrow>
            (\<exists>st''. Free c st' del fname' line' =
                      Some (st'', if exceptions c
                                  then Raised ''Attempt to free already freed memory.'' fname' line'
                                  else Returned 0xBB) \<and>
                    stats st'' = stats st' \<and> freeList st'' = freeList st' \<and>
                    pageList st'' = pageList st' \<and> heap st'' = heap st')"
  proof (rule impI)
    assume a: "oc = Returned 0 \<and> cfg_ok c \<and> good c st ps \<and> is_block c ps del"
    then have fr: "Free c st del fname line = Some (st', Returned 0)" using assms by simp
    from a have ok: "cfg_ok c" and g: "good c st ps" and bl: "is_block c ps del" by simp_all
    show "\<exists>st''. Free c st' del fname' line' =
                      Some (st'', if exceptions c
                                  then Raised ''Attempt to free already freed memory.'' fname' line'
                                  else Returned 0xBB) \<and>
                    stats st'' = stats st' \<and> freeList st'' = freeList st' \<and>
                    pageList st'' = pageList st' \<and> heap st'' = heap st'"
      unfolding double_free [OF ok g bl fr] by (simp add: heap_log)
  qed
qed

lemma good_pool1: "good cfg2 pool1 [0x1000]"
proof -
  have pg: "page_ok cfg2 0x1000"
    using unat_pageSize [OF cfg_ok_cfg2] by (simp add: page_ok_def cfg2_vals)
  show ?thesis
    unfolding pool1_def pool0_def
    by (rule good_Allocate_page [OF good_new _ pg]) (simp_all add: new_pool_def)
qed

lemma block_pool1: "is_block cfg2 [0x1000] 0x102C"
proof -
  have "block cfg2 0x1000 1 = 0x102C"
    by (simp add: block_def cfg2_vals ptr_size_def headerSize_def)
  then show ?thesis
    unfolding is_block_def by (intro bexI [of _ "0x1000"] exI [of _ 1]) (simp_all add: cfg2_vals)
qed

lemma Free_pool1: "Free cfg2 pool1 0x102C 7 12 = Some (fst (release cfg2 pool1 0x102C), Returned 0)"
proof -
  have g: "good cfg2 pool0 []" unfolding pool0_def by (rule good_new)
  have pg: "page_ok cfg2 0x1000"
    using unat_pageSize [OF cfg_ok_cfg2] by (simp add: page_ok_def cfg2_vals)
  have "Free cfg2 (snd (Allocate cfg2 0x1000 pool0 7 9)) (fst (Allocate cfg2 0x1000 pool0 7 9)) 7 12 =
      Some (release cfg2 (snd (Allocate cfg2 0x1000 pool0 7 9)) (fst (Allocate cfg2 0x1000 pool0 7 9)))"
    using pg by (intro round_trip(1) [OF cfg_ok_cfg2 g]) simp
  then show ?thesis
    by (simp add: a1 pool1_eq release_def Let_def split: prod.splits)
qed

theorem C4_failed_Free_changes_nothing_witness:
  "Free cfg2 pool1 0x102C 7 12 = Some (fst (release cfg2 pool1 0x102C), Returned 0) \<and>
   cfg_ok cfg2 \<and> good cfg2 pool1 [0x1000] \<and> is_block cfg2 [0x1000] 0x102C \<and>
   (\<exists>st''. Free cfg2 (fst (release cfg2 pool1 0x102C)) 0x102C 7 13 = Some (st'', Returned 0xBB) \<and>
           stats st'' = stats (fst (release cfg2 pool1 0x102C)) \<and>
           heap st'' = heap (fst (release cfg2 pool1 0x102C)) \<and>
           blocksInUse (stats st'') = 0)"
proof -
  note t = C4_failed_Free_changes_nothing [OF Free_pool1, of "[0x1000]" 7 13]
  have b: "blocksInUse (stats (fst (release cfg2 pool1 0x102C))) = 0"
    by (simp add: stats_release pool1_eq)
  show ?thesis
    using t Free_pool1 cfg_ok_cfg2 good_pool1 block_pool1 b
    by (auto simp add: cfg2_vals)
qed

section \<open>Handle\<close>

text \<open>
  A \<open>Handle\<close> object: the memory it manages, the allocator that owns that memory, and
  the reference count.  The count is an \<open>int\<close> field; it is modelled without a bound,
  since every reference is held by a \<open>Pointer\<close> object and these do not fit the address
  space \<open>2 ^ 31\<close> times.
\<close>

record Handle =
  memory :: addr
  allocator :: addr
  refCount :: int

text \<open>
  What is fixed for a run: whether the build has exceptions, the address of the static
  \<open>Handle::Null\<close>, the address of the string \<open>__FILE__\<close> of MemoryHandle.cpp, and the
  settings and element size of every user allocator (by its address).
\<close>

record env =
  exc :: bool
  null_addr :: addr
  src_file :: addr
  pool_cfg :: "addr \<Rightarrow> config"

text \<open>
  \<open>Handle::HandleAllocator\<close> is an \<open>ObjectAllocator<Handle>\<close> with the default settings;
  a \<open>Handle\<close> is three words.
\<close>

definition hcfg :: "env \<Rightarrow> config" where
  "hcfg e = default_settings 12 (exc e)"

definition ucfg :: "env \<Rightarrow> addr \<Rightarrow> config" where
  "ucfg e a = (pool_cfg e a)\<lparr>exceptions := exc e\<rparr>"

text \<open>
  The state of the program: the Handle allocator, the Handle objects by address, the
  user allocators by address, each with the bytes of its own pages, and the live
  \<open>Pointer\<close> objects with the Handle each one references.

  The fields of a Handle are kept in the map \<open>handles\<close>, beside the bytes of its block
  in the pages of the Handle allocator.  The program keeps them in the block.  The two
  agree from \<open>CreateHandle\<close>, which writes all three fields, until \<open>MM_FREE\<close> gives the
  block back: the allocator fills a block before it hands it out and when it takes it
  back, and it reads a block (the link of the free list) only while the block is free.
  After \<open>MM_FREE\<close> the program's block holds the link of the free list and the
  \<open>FREED\<close> pattern, and a pointer that still references the Handle would read those;
  the map does not follow that.  So the functions below say what the program does only
  for Handles that are \<open>Handle::Null\<close> or are allocated, and the theorems about
  sequences of operations are stated for such uses only.
\<close>

record world =
  hpool :: pool
  handles :: "addr \<Rightarrow> Handle"
  pools :: "addr \<Rightarrow> pool"
  ptrs :: "nat \<Rightarrow> addr option"

text \<open>How a call ends: normally, or by throwing a \<open>MemoryManagerException\<close>.\<close>

datatype signal = Normal | Thrown string addr "32 word"

definition hlog :: "tok list \<Rightarrow> world \<Rightarrow> world" where
  "hlog ts w = w\<lparr>hpool := log_line ts (hpool w)\<rparr>"

definition set_refCount :: "addr \<Rightarrow> int \<Rightarrow> world \<Rightarrow> world" where
  "set_refCount h n w = w\<lparr>handles := (handles w)(h := (handles w h)\<lparr>refCount := n\<rparr>)\<rparr>"

definition AddRef :: "addr \<Rightarrow> world \<Rightarrow> world" where
  "AddRef h w = set_refCount h (refCount (handles w h) + 1) w"

text \<open>The two fields \<open>Handle\<close> diagnostics print from the debug header of a Handle.\<close>

definition alloc_site :: "env \<Rightarrow> world \<Rightarrow> addr \<Rightarrow> tok list" where
  "alloc_site e w h =
     (let dbg = GetDebugHeader (hcfg e) h
      in [CStr (hdr_filename (heap (hpool w)) dbg), Str '' #'', Num (hdr_line (heap (hpool w)) dbg)])"

text \<open>
  \<open>Handle::RemoveRef(filename, line)\<close>.  \<open>MM_FREE\<close> passes \<open>__FILE__\<close> and
  \<open>__LINE__\<close> (line 88 of MemoryHandle.cpp) to the allocator's \<open>Free\<close>; the status it
  returns is dropped, an exception it throws goes on to the caller.
\<close>

definition RemoveRef :: "env \<Rightarrow> world \<Rightarrow> addr \<Rightarrow> addr \<Rightarrow> 32 word \<Rightarrow> (world \<times> signal) option" where
  "RemoveRef e w0 h fname line =
     (let rc = refCount (handles w0 h) - 1;
          w1 = set_refCount h rc w0;
          w2 = (if rc < 0
                then hlog ([Str ''[Handle]: Negative RefCount detected from remove at: '',
                            CStr fname, Str '' #'', Num line, Str ''Memory allocated at: '']
                           @ alloc_site e w1 h) w1
                else w1)
      in if rc < 0 \<and> exc e then Some (w2, Thrown ''Negative RefCount detected.'' fname line)
         else if rc \<le> 0
         then if exc e \<and> memory (handles w2 h) \<noteq> 0
              then Some (w2, Thrown ''Dangling reference: All references removed before pointer freed.''
                               fname line)
              else (case Free (hcfg e) (hpool w2) h (src_file e) 88 of
                      None \<Rightarrow> None
                    | Some (hp, Returned code) \<Rightarrow> Some (w2\<lparr>hpool := hp\<rparr>, Normal)
                    | Some (hp, Raised msg f l) \<Rightarrow> Some (w2\<lparr>hpool := hp\<rparr>, Thrown msg f l))
         else Some (w2, Normal))"

text \<open>\<open>Handle::Free<T>(file, line)\<close>.\<close>

definition Handle_Free :: "env \<Rightarrow> world \<Rightarrow> addr \<Rightarrow> addr \<Rightarrow> 32 word \<Rightarrow> (world \<times> signal) option" where
  "Handle_Free e w h fname line =
     (if memory (handles w h) = 0
      then let w1 = hlog ([Str ''[Handle]: Attempt to free freed memory. Free attempt at: '',
                           CStr fname, Str '' #'', Num line, Str ''Memory allocated at: '']
                          @ alloc_site e w h) w
           in Some (w1, if exc e then Thrown ''Attempt to free freed memory.'' fname line else Normal)
      else let al = allocator (handles w h)
           in case Free (ucfg e al) (pools w al) (memory (handles w h)) fname line of
                None \<Rightarrow> None
              | Some (up, Raised msg f l) \<Rightarrow> Some (w\<lparr>pools := (pools w)(al := up)\<rparr>, Thrown msg f l)
              | Some (up, Returned errorCode) \<Rightarrow>
                  let w1 = w\<lparr>pools := (pools w)(al := up)\<rparr>;
                      w2 = (if errorCode \<noteq> 0
                            then hlog ([Str ''[Handle]: Invalid free attempt failed at: '',
                                        CStr fname, Str '' #'', Num line, Str ''Memory allocated at: '']
                                       @ alloc_site e w1 h) w1
                            else w1)
                  in if errorCode \<noteq> 0 \<and> exc e
                     then Some (w2, Thrown ''Invalid free attempt.'' fname line)
                     else Some (w2\<lparr>handles := (handles w2)(h := (handles w2 h)\<lparr>memory := 0\<rparr>)\<rparr>,
                                Normal))"

text \<open>
  \<open>Handle::CreateHandle(allocator, memory, file, line)\<close>: a block of the Handle
  allocator, with \<open>Handle(allocator, memory)\<close> constructed in it.  Returns the address.
\<close>

definition CreateHandle :: "env \<Rightarrow> addr \<Rightarrow> world \<Rightarrow> addr \<Rightarrow> addr \<Rightarrow> addr \<Rightarrow> 32 word \<Rightarrow> addr \<times> world" where
  "CreateHandle e pg w al mem fname line =
     (let (h, hp) = Allocate (hcfg e) pg (hpool w) fname line
      in (h, w\<lparr>hpool := hp,
               handles := (handles w)(h := \<lparr>memory = mem, allocator = al, refCount = 0\<rparr>)\<rparr>))"

section \<open>Pointer\<close>

text \<open>
  A \<open>Pointer<T>\<close> object is named by a number; \<open>ptrs w p\<close> is its \<open>handle\<close> field while
  it lives.  \<open>bind\<close> is the constructors' \<open>handle(h)\<close> followed by \<open>handle->AddRef()\<close>.
\<close>

definition bind :: "nat \<Rightarrow> addr \<Rightarrow> world \<Rightarrow> world" where
  "bind p h w = AddRef h (w\<lparr>ptrs := (ptrs w)(p \<mapsto> h)\<rparr>)"

datatype op =
    Construct nat
  | Copy nat nat
  | Destroy nat
  | Assign nat nat
  | AssignNull nat
  | PFree nat addr "32 word"
  | PAlloc nat addr addr addr "32 word" addr

text \<open>
  The operations: \<open>Construct p\<close> is \<open>Pointer()\<close> and \<open>Pointer(nullptr)\<close>; \<open>Copy p q\<close> is
  the copy and the move constructor, the construction from \<open>Pointer<U>\<close> and from the
  Handle of \<open>q\<close> (which the casts use); \<open>Destroy p\<close> the destructor; \<open>Assign p q\<close> the
  assignment operators \<open>p = q\<close>; \<open>AssignNull p\<close> is \<open>p = nullptr\<close>; \<open>PFree p file line\<close>
  is \<open>p.Free(file, line)\<close>; \<open>PAlloc p allocator memory file line pg\<close> is
  \<open>PointerAllocate\<close> constructing \<open>p\<close> (\<open>pg\<close> is the page \<open>new\<close> would hand to the
  Handle allocator).  The destructor and the assignments call \<open>RemoveRef()\<close> with its
  default arguments.
\<close>

definition the_handle :: "world \<Rightarrow> nat \<Rightarrow> addr" where
  "the_handle w p = (case ptrs w p of Some h \<Rightarrow> h | None \<Rightarrow> 0)"

fun exec :: "env \<Rightarrow> op \<Rightarrow> world \<Rightarrow> (world \<times> signal) option" where
  "exec e (Construct p) w = Some (bind p (null_addr e) w, Normal)"
| "exec e (Copy p q) w = Some (bind p (the_handle w q) w, Normal)"
| "exec e (Destroy p) w =
     (case RemoveRef e w (the_handle w p) 0 0 of
        None \<Rightarrow> None
      | Some (w1, sg) \<Rightarrow> Some (w1\<lparr>ptrs := (ptrs w1)(p := None)\<rparr>, sg))"
| "exec e (Assign p q) w =
     (if p = q then Some (w, Normal)
      else case RemoveRef e w (the_handle w p) 0 0 of
             None \<Rightarrow> None
           | Some (w1, Thrown msg f l) \<Rightarrow> Some (w1, Thrown msg f l)
           | Some (w1, Normal) \<Rightarrow> Some (bind p (the_handle w1 q) w1, Normal))"
| "exec e (AssignNull p) w =
     (case RemoveRef e w (the_handle w p) 0 0 of
        None \<Rightarrow> None
      | Some (w1, Thrown msg f l) \<Rightarrow> Some (w1, Thrown msg f l)
      | Some (w1, Normal) \<Rightarrow> Some (bind p (null_addr e) w1, Normal))"
| "exec e (PFree p fname line) w =
     (case Handle_Free e w (the_handle w p) fname line of
        None \<Rightarrow> None
      | Some (w1, Thrown msg f l) \<Rightarrow> Some (w1, Thrown msg f l)
      | Some (w1, Normal) \<Rightarrow>
          (case RemoveRef e w1 (the_handle w1 p) fname line of
             None \<Rightarrow> None
           | Some (w2, Thrown msg f l) \<Rightarrow> Some (w2, Thrown msg f l)
           | Some (w2, Normal) \<Rightarrow> Some (bind p (null_addr e) w2, Normal)))"
| "exec e (PAlloc p al mem fname line pg) w =
     (let (h, w1) = CreateHandle e pg w al mem fname line
      in Some (bind p h w1, Normal))"

section \<open>RemoveRef\<close>

lemma hcfg_vals:
  "blockSize (hcfg e) = 12" "leftAlign (hcfg e) = 2" "interAlign (hcfg e) = 0"
  "padBytes (hcfg e) = 2" "blocksPerPage (hcfg e) = 1024" "interChunkSize (hcfg e) = 28"
  "exceptions (hcfg e) = exc e" "pageSize (hcfg e) = 28678"
  by (simp_all add: hcfg_def cfg_defs default_settings_def)

lemma cfg_ok_hcfg: "cfg_ok (hcfg e)"
  by (simp add: cfg_ok_def chunk_def hcfg_vals)

lemma psize_hcfg: "psize (hcfg e) = 28678"
  by (simp add: psize_def chunk_def hcfg_vals)









lemma good_log_inv:
  assumes "cfg_ok c" "good c st ps"
  shows "\<exists>xs. pool_inv c (log_line ts st) ps xs \<and> pads_ok c (heap (log_line ts st)) ps"
  using good_inv [OF assms] by (simp add: pool_inv_log heap_log)




section \<open>An example program state\<close>

text \<open>
  A program with no \<open>Pointer\<close> yet: the Handle allocator is fresh (it logs to its file),
  \<open>Handle::Null\<close> is at \<open>0x100\<close> with an empty storage and \<open>refCount = 1\<close>.  Then
  every user allocator is in the state of the example pool, with the block at \<open>0x102C\<close>
  allocated and the block at \<open>0x1014\<close> free.  Then \<open>PointerAllocate\<close> makes pointer 0
  for the storage \<open>mem\<close> of the allocator at \<open>0x300\<close>; the first page of the Handle
  allocator is at \<open>0x10000\<close>.
\<close>

definition env0 :: "bool \<Rightarrow> env" where
  "env0 b = \<lparr>exc = b, null_addr = 0x100, src_file = 0x200, pool_cfg = (\<lambda>a. cfg2)\<rparr>"

definition world0 :: world where
  "world0 = \<lparr>hpool = new_pool (\<lambda>a. 0) (Some []),
             handles = (\<lambda>a. \<lparr>memory = 0, allocator = 0, refCount = 1\<rparr>),
             pools = (\<lambda>a. pool1), ptrs = (\<lambda>p. None)\<rparr>"

definition hpool1 :: "bool \<Rightarrow> pool" where
  "hpool1 b = snd (Allocate (hcfg (env0 b)) 0x10000 (new_pool (\<lambda>a. 0) (Some [])) 7 9)"

definition world1 :: "bool \<Rightarrow> addr \<Rightarrow> world" where
  "world1 b mem = \<lparr>hpool = hpool1 b,
               handles = (\<lambda>a. \<lparr>memory = 0, allocator = 0, refCount = 1\<rparr>)
                           (0x16FF8 := \<lparr>memory = mem, allocator = 0x300, refCount = 1\<rparr>),
               pools = (\<lambda>a. pool1), ptrs = (\<lambda>p. None)(0 \<mapsto> 0x16FF8)\<rparr>"

lemma page_ok_hcfg: "page_ok (hcfg e) 0x10000"
  by (simp add: page_ok_def psize_hcfg)


lemma block_hcfg: "block (hcfg e) 0x10000 1023 = 0x16FF8"
  by (simp add: block_def hcfg_vals ptr_size_def headerSize_def)

lemma hpool1_alloc:
  "fst (Allocate (hcfg (env0 b)) 0x10000 (new_pool (\<lambda>a. 0) (Some [])) 7 9) = 0x16FF8"
  "heap (hpool1 b) (0x16FF8 - padBytes (hcfg (env0 b)) - headerSize) = 1"
  "is_block (hcfg (env0 b)) [0x10000] 0x16FF8"
proof -
  let ?c = "hcfg (env0 b)" and ?st = "new_pool (\<lambda>a. 0) (Some [])"
  have fl: "freeList ?st = 0" by (simp add: new_pool_def)
  have ap: "\<forall>q\<in>set []. apart ?c 0x10000 q" by simp
  have pads: "pads_ok ?c (heap ?st) []" by (simp add: pads_ok_def)
  note M = Allocate_miss_inv [OF cfg_ok_hcfg pool_inv_new pads fl page_ok_hcfg ap, of 7 9]
  show "fst (Allocate ?c 0x10000 ?st 7 9) = 0x16FF8"
    using M(1) by (simp add: hcfg_vals block_hcfg)
  show "heap (hpool1 b) (0x16FF8 - padBytes ?c - headerSize) = 1"
    using M(4) by (simp add: hpool1_def hcfg_vals block_hcfg)
  show "is_block ?c [0x10000] 0x16FF8"
    unfolding is_block_def
    by (intro bexI [of _ "0x10000"] exI [of _ 1023]) (simp_all add: block_hcfg hcfg_vals)
qed

lemma world1_exec:
  "exec (env0 b) (PAlloc 0 0x300 mem 7 9 0x10000) world0 = Some (world1 b mem, Normal)"
proof -
  have "Allocate (hcfg (env0 b)) 0x10000 (new_pool (\<lambda>a. 0) (Some [])) 7 9 = (0x16FF8, hpool1 b)"
    using hpool1_alloc(1) [of b] by (simp add: hpool1_def prod_eq_iff)
  then show ?thesis
    by (simp add: CreateHandle_def world0_def world1_def bind_def AddRef_def set_refCount_def)
qed

lemma logStream_Allocate: "logStream (snd (Allocate c pg st fname line)) = logStream st"
  by (simp add: Allocate_def CreatePage_def Let_def split: prod.splits)


lemma world1_vals:
  "refCount (handles (world1 b mem) 0x16FF8) = 1" "memory (handles (world1 b mem) 0x16FF8) = mem"
  "hpool (world1 b mem) = hpool1 b" "exc (env0 b) = b" "logStream (hpool1 b) = Some []"
  "ptrs (world1 b mem) 0 = Some 0x16FF8"
  by (simp_all add: world1_def env0_def hpool1_def logStream_Allocate new_pool_def)



section \<open>Pointer::Free\<close>














section \<open>Pointer::Free on the example state\<close>




text \<open>The example state with a second pointer, pointer 1, that is null.\<close>

definition world2 :: "bool \<Rightarrow> world" where
  "world2 b = bind 1 0x100 (world1 b 0x102C)"

lemma world2_exec: "exec (env0 b) (Construct 1) (world1 b 0x102C) = Some (world2 b, Normal)"
  by (simp add: world2_def env0_def)




section \<open>Allocate and Free, seen from the blocks in use\<close>





section \<open>Programs: sequences of Pointer operations\<close>

text \<open>\<open>Handle::Handle()\<close>, which constructs \<open>Handle::Null\<close>.\<close>

definition Handle_Null :: Handle where
  "Handle_Null = \<lparr>memory = 0, allocator = 0, refCount = 1\<rparr>"

text \<open>
  When an operation can be called: a constructor makes a pointer that does not exist yet,
  every other operation works on pointers that exist.  When \<open>PointerAllocate\<close> makes the
  Handle allocator ask for a page, \<open>new\<close> hands out a proper page that overlaps none of
  its pages and does not hold the static object \<open>Handle::Null\<close>.
\<close>

fun enabled :: "env \<Rightarrow> world \<Rightarrow> addr list \<Rightarrow> op \<Rightarrow> bool" where
  "enabled e w ps (Construct p) \<longleftrightarrow> ptrs w p = None"
| "enabled e w ps (Copy p q) \<longleftrightarrow> ptrs w p = None \<and> ptrs w q \<noteq> None"
| "enabled e w ps (Destroy p) \<longleftrightarrow> ptrs w p \<noteq> None"
| "enabled e w ps (Assign p q) \<longleftrightarrow> ptrs w p \<noteq> None \<and> ptrs w q \<noteq> None"
| "enabled e w ps (AssignNull p) \<longleftrightarrow> ptrs w p \<noteq> None"
| "enabled e w ps (PFree p fname line) \<longleftrightarrow> ptrs w p \<noteq> None"
| "enabled e w ps (PAlloc p al mem fname line pg) \<longleftrightarrow>
     ptrs w p = None \<and>
     (freeList (hpool w) = 0 \<longrightarrow>
        page_ok (hcfg e) pg \<and> (\<forall>q\<in>set ps. apart (hcfg e) pg q) \<and>
        \<not> null_addr e - pg < pageSize (hcfg e))"

text \<open>The pages of the Handle allocator after an operation.\<close>

fun pages_after :: "world \<Rightarrow> addr list \<Rightarrow> op \<Rightarrow> addr list" where
  "pages_after w ps (PAlloc p al mem fname line pg) = (if freeList (hpool w) = 0 then pg # ps else ps)"
| "pages_after w ps (Construct p) = ps"
| "pages_after w ps (Copy p q) = ps"
| "pages_after w ps (Destroy p) = ps"
| "pages_after w ps (Assign p q) = ps"
| "pages_after w ps (AssignNull p) = ps"
| "pages_after w ps (PFree p fname line) = ps"

text \<open>
  \<open>wreach e w ps\<close>: the state \<open>w\<close>, where the Handle allocator has the pages \<open>ps\<close>, is
  reached from the start of the program (a fresh Handle allocator, \<open>Handle::Null\<close>
  constructed, no pointer) by Pointer operations; an operation may end by throwing, and
  the program goes on from the state it left.  \<open>quiet\<close> is the same with operations
  that all end normally.  \<open>wreach\<close> follows the functions above wherever they lead,
  also through uses of a Handle that has gone back to the allocator, where they are not
  the program; it serves to prove invariants.  The programs whose behaviour is defined
  are those of \<open>run\<close> below; in \<open>quiet\<close> every Handle in use is allocated.
\<close>

inductive wreach :: "env \<Rightarrow> world \<Rightarrow> addr list \<Rightarrow> bool" for e :: env where
  wreach_init:
    "hpool w = new_pool m lg \<Longrightarrow> handles w (null_addr e) = Handle_Null \<Longrightarrow> ptrs w = (\<lambda>p. None) \<Longrightarrow>
     wreach e w []"
| wreach_step:
    "wreach e w ps \<Longrightarrow> enabled e w ps a \<Longrightarrow> exec e a w = Some (w', sg) \<Longrightarrow>
     wreach e w' (pages_after w ps a)"



section \<open>What the operations change\<close>








section \<open>The reference count of Handle::Null\<close>











lemma the_handle_Some: "ptrs w p = Some h \<Longrightarrow> the_handle w p = h"
  by (simp add: the_handle_def)











section \<open>The example state is reached by a program\<close>

lemma null_env0: "null_addr (env0 b) = 0x100"
  by (simp add: env0_def)

lemma wreach_world0: "wreach (env0 b) world0 []"
  by (rule wreach_init [where m = "\<lambda>a. 0" and lg = "Some []"])
    (simp_all add: world0_def Handle_Null_def)

lemma enabled_world0: "enabled (env0 b) world0 [] (PAlloc 0 0x300 mem 7 9 0x10000)"
  by (simp add: world0_def page_ok_hcfg hcfg_vals null_env0)

lemma pages_world0: "pages_after world0 [] (PAlloc 0 0x300 mem 7 9 0x10000) = [0x10000]"
  by (simp add: world0_def new_pool_def)

lemma wreach_world1: "wreach (env0 b) (world1 b mem) [0x10000]"
  using wreach_step [OF wreach_world0 enabled_world0 world1_exec, of b mem]
  by (simp only: pages_world0)

lemma enabled_world1: "enabled (env0 b) (world1 b mem) ps (Construct 1)"
  by (simp add: world1_def)

lemma wreach_world2: "wreach (env0 b) (world2 b) [0x10000]"
  using wreach_step [OF wreach_world1 enabled_world1 world2_exec, of b] by simp











section \<open>The reference counts of the Handles in use\<close>












section \<open>The counts in the example state\<close>







section \<open>Pointer::Free: what has changed afterwards\<close>













section \<open>Pointer::Free on the example state: what has changed\<close>





text \<open>The example state with a second pointer, pointer 1, that is a copy of pointer 0.\<close>

definition world4 :: "bool \<Rightarrow> world" where
  "world4 b = bind 1 0x16FF8 (world1 b 0x102C)"

lemma world4_exec: "exec (env0 b) (Copy 1 0) (world1 b 0x102C) = Some (world4 b, Normal)"
  by (simp add: world4_def the_handle_Some [OF world1_vals(6)])




end
